theory Spec2Isabelle
  imports Complex_Main "HOL-Library.Sublist"
begin

section \<open>Whole-word, case-insensitive search\<close>

text \<open>
  The program calls \<^verbatim>\<open>re.search(r'\b(' + w + r')\b', transcript, re.I)\<close> with patterns that
  are plain phrases of letters and blanks. Without the UNICODE flag the word characters of
  \<^verbatim>\<open>\b\<close> are the ASCII letters, digits and the underscore, and case folding is the ASCII
  one; every other character is a non-word character that only matches itself.
\<close>

definition is_word_char :: "char \<Rightarrow> bool" where
  "is_word_char c =
     (let n = (of_char c :: nat)
      in (48 \<le> n \<and> n \<le> 57) \<or> (65 \<le> n \<and> n \<le> 90) \<or> n = 95 \<or> (97 \<le> n \<and> n \<le> 122))"

definition lower_char :: "char \<Rightarrow> char" where
  "lower_char c =
     (let n = (of_char c :: nat) in if 65 \<le> n \<and> n \<le> 90 then char_of (n + 32) else c)"

definition lower :: "string \<Rightarrow> string" where
  "lower s = map lower_char s"

text \<open>\<^verbatim>\<open>\b\<close> at position \<open>p\<close>: exactly one of the characters before and after \<open>p\<close> is a
  word character; outside the string there is none.\<close>

definition at_boundary :: "string \<Rightarrow> nat \<Rightarrow> bool" where
  "at_boundary s p =
     ((0 < p \<and> p \<le> length s \<and> is_word_char (s ! (p - 1))) \<noteq>
      (p < length s \<and> is_word_char (s ! p)))"

definition literal_at :: "string \<Rightarrow> string \<Rightarrow> nat \<Rightarrow> bool" where
  "literal_at pat s i =
     (i + length pat \<le> length s \<and> lower (take (length pat) (drop i s)) = lower pat)"

definition word_at :: "string \<Rightarrow> string \<Rightarrow> nat \<Rightarrow> bool" where
  "word_at pat s i = (at_boundary s i \<and> literal_at pat s i \<and> at_boundary s (i + length pat))"

text \<open>\<^verbatim>\<open>re.search(r'\b(a1|...|an)\b', s, re.I)\<close> as a truth value, for literal alternatives.\<close>

definition re_search_words :: "string list \<Rightarrow> string \<Rightarrow> bool" where
  "re_search_words alts s =
     list_ex (\<lambda>i. list_ex (\<lambda>pat. word_at pat s i) alts) [0..<Suc (length s)]"

section \<open>The vocabulary\<close>

text \<open>
  The payloads of \<open>command_dicts\<close> are Python dictionaries of floats and one integer. They are
  kept as JSON values: an object lists its members in the order the source writes them, a
  float is the real number its literal denotes.
\<close>

datatype json = JInt int | JFloat real | JObj "(string \<times> json) list"

definition move :: "real \<Rightarrow> real \<Rightarrow> real \<Rightarrow> json" where
  "move sp du di =
     JObj [(''move'', JObj [(''speed'', JFloat sp), (''duration'', JFloat du),
                            (''distance'', JFloat di)])]"

definition commands :: "string list" where
  "commands = [''go short'', ''go medium'', ''go long'', ''go slow'', ''go fast'', ''go run'',
               ''go manual'', ''go stop'', ''go auto'', ''stop'', ''halt'']"

definition command_dicts :: "json list" where
  "command_dicts =
     [move 1.0 0.0 0.5, move 1.0 0.0 1.5, move 1.0 0.0 2.5,
      move 0.6 7200.0 0.0, move 1.0 7200.0 0.0, move 1.1 7200.0 0.0,
      JObj [(''terminate'', JInt 1)],
      move 0.0 0.0 0.0, move 0.0 0.0 0.0, move 0.0 0.0 0.0, move 0.0 0.0 0.0]"

definition STREAMING_LIMIT :: int where
  "STREAMING_LIMIT = 55000"

section \<open>Responses of the transcription service\<close>

text \<open>
  The fields of a response that the program reads. A transcript is a list of characters; a
  stability and a reading of \<^verbatim>\<open>time.time()\<close> are exact real numbers.
\<close>

record alternative =
  transcript :: string

record result =
  alternatives :: "alternative list"
  stability :: real
  is_final :: bool

record response =
  results :: "result list"

section \<open>Program state and observable effects\<close>

datatype exn = IndexError | Exception string

datatype effect =
    Stdout_write string
  | Print string
  | Print_json string json
  | Send json
  | Print_exc_type exn
  | Print_exc_args exn
  | Print_exc exn
  | Acquire
  | Release
  | Request string

datatype gen_state = Ready | Waiting | Ended

text \<open>
  The globals \<open>last_command_ts\<close> and \<open>last_command_num\<close>, the fields of the current
  \<open>ResumableMicrophoneStream\<close> (\<open>closed\<close>, the queue \<open>_buff\<close> with \<open>None\<close> as the end
  sentinel, \<open>start_time\<close>), the control point of the current chunk generator, the local
  \<open>num_chars_printed\<close> of the transcript loop, and the effects so far (terminal output,
  messages sent on the socket, audio device calls, requests handed to the service), oldest first.
\<close>

record state =
  last_command_ts :: real
  last_command_num :: int
  closed :: bool
  buff :: "string option list"
  start_time :: int
  gen :: gen_state
  num_chars_printed :: nat
  out :: "effect list"

definition emit :: "effect list \<Rightarrow> state \<Rightarrow> state" where
  "emit es s = s\<lparr>out := out s @ es\<rparr>"

section \<open>Text shown for a result\<close>

definition digit_char :: "nat \<Rightarrow> char" where
  "digit_char d = char_of (48 + d)"

fun decimal :: "nat \<Rightarrow> string" where
  "decimal n = (if n < 10 then [digit_char n] else decimal (n div 10) @ [digit_char (n mod 10)])"

declare decimal.simps [simp del]

definition round_half_even :: "real \<Rightarrow> int" where
  "round_half_even y =
     (let f = \<lfloor>y\<rfloor>; r = y - of_int f
      in if r < 1 / 2 then f else if 1 / 2 < r then f + 1 else if even f then f else f + 1)"

text \<open>\<^verbatim>\<open>'%.2f' % x\<close> for a finite \<open>x\<close>: the exact value rounded to hundredths, ties to even.\<close>

definition format_2f :: "real \<Rightarrow> string" where
  "format_2f x =
     (let n = nat (round_half_even (\<bar>x\<bar> * 100))
      in (if x < 0 then ''-'' else []) @ decimal (n div 100) @ ''.'' @
         [digit_char (n mod 100 div 10), digit_char (n mod 10)])"

text \<open>
  Lines 195-203 of \<open>listen_print_loop\<close>: whether a result is accepted, and the text that is shown
  and searched, which is the transcript followed by the stability, when positive, and by
  \<^verbatim>\<open>' Final'\<close> for a final result.
\<close>

definition accept :: "result \<Rightarrow> bool" where
  "accept res = (0 < stability res \<or> is_final res)"

definition stability_str :: "result \<Rightarrow> string" where
  "stability_str res = (if 0 < stability res then '' '' @ format_2f (stability res) else [])"

definition final_str :: "result \<Rightarrow> string" where
  "final_str res = (if is_final res then '' Final'' else [])"

definition display_text :: "string \<Rightarrow> result \<Rightarrow> string" where
  "display_text tr res = (tr @ stability_str res) @ final_str res"

section \<open>The transcript loop\<close>

datatype control = Continue | Break | Raise exn

definition quit_words :: "string list" where
  "quit_words = [''exit'', ''quit'']"

text \<open>
  Lines 228-232: the loop over the vocabulary, with the index found so far and the lines
  printed. Lines 237-257: the decision to send, with the message and the update of the globals;
  the test on the index stands for the \<open>IndexError\<close> of \<^verbatim>\<open>command_dicts[command_idx]\<close>. Lines
  195-259: the loop body for a result \<open>res\<close> whose top alternative has transcript \<open>tr\<close>.
\<close>

definition scan_step :: "string \<Rightarrow> int \<times> effect list \<Rightarrow> nat \<Rightarrow> int \<times> effect list" where
  "scan_step text acc i =
     (if re_search_words [commands ! i] text
      then (int i, snd acc @ [Print (''   Command:  '' @ commands ! i)])
      else acc)"

definition scan_commands :: "string \<Rightarrow> int \<times> effect list" where
  "scan_commands text = foldl (scan_step text) (- 1, []) [0..<length commands]"

definition publish :: "int \<Rightarrow> real \<Rightarrow> state \<Rightarrow> control \<times> state" where
  "publish command_idx curr_command_ts s =
     (let send_command =
            (if last_command_num s = command_idx
             then (if command_idx < 6
                   then (if curr_command_ts - last_command_ts s < 2 then False else True)
                   else True)
             else True)
      in if send_command
         then (if 0 \<le> command_idx \<and> nat command_idx < length command_dicts
               then (let voice_msg = JObj [(''handheld'', command_dicts ! nat command_idx)]
                     in (Continue,
                         (emit [Print_json ''   Sending: '' voice_msg, Send voice_msg] s)
                           \<lparr>last_command_ts := curr_command_ts,
                            last_command_num := command_idx\<rparr>))
               else (Raise IndexError, s))
         else (Continue, emit [Print ''   Too soon to repeat command''] s))"

definition process_result :: "real \<Rightarrow> string \<Rightarrow> result \<Rightarrow> state \<Rightarrow> control \<times> state" where
  "process_result now tr res s =
     (let text = display_text tr res;
          overwrite_chars = replicate (num_chars_printed s - length text) CHR '' ''
      in if \<not> accept res
         then (Continue,
               (emit [Stdout_write (text @ overwrite_chars @ [CHR 0x0D])] s)
                 \<lparr>num_chars_printed := length text\<rparr>)
         else (let s1 = emit [Print (text @ overwrite_chars)] s
               in if re_search_words quit_words text
                  then (Break, (emit [Print ''Exiting..''] s1)\<lparr>closed := True\<rparr>)
                  else (let (command_idx, prints) = scan_commands text;
                            s2 = emit prints s1
                        in if - 1 < command_idx
                           then (case publish command_idx now s2 of
                                   (Continue, s3) \<Rightarrow> (Continue, s3\<lparr>num_chars_printed := 0\<rparr>)
                                 | (c, s3) \<Rightarrow> (c, s3))
                           else (Continue, s2\<lparr>num_chars_printed := 0\<rparr>))))"

text \<open>
  The body of the \<^verbatim>\<open>for\<close> loop for one response; \<open>now\<close> is what \<^verbatim>\<open>time.time()\<close> returns
  while the response is handled.
\<close>

definition process_response :: "real \<Rightarrow> response \<Rightarrow> state \<Rightarrow> control \<times> state" where
  "process_response now r s =
     (case results r of
        [] \<Rightarrow> (Continue, s)
      | res # _ \<Rightarrow>
          (case alternatives res of
             [] \<Rightarrow> (Continue, s)
           | top_alternative # _ \<Rightarrow> process_result now (transcript top_alternative) res s))"

text \<open>
  The response iterator is a finite list of responses, each with its clock reading, and an
  ending: exhausted (\<open>None\<close>) or raising an exception.
\<close>

fun for_responses :: "(real \<times> response) list \<Rightarrow> exn option \<Rightarrow> state \<Rightarrow> exn option \<times> state" where
  "for_responses [] ending s = (ending, s)"
| "for_responses ((now, r) # rs) ending s =
     (case process_response now r s of
        (Continue, s') \<Rightarrow> for_responses rs ending s'
      | (Break, s') \<Rightarrow> (None, s')
      | (Raise e, s') \<Rightarrow> (Some e, s'))"

text \<open>
  Lines 175-265: the generator expression that drops responses without results or alternatives,
  the loop, and the handler that prints an exception three ways and raises it again.
\<close>

definition well_formed :: "response \<Rightarrow> bool" where
  "well_formed r = (results r \<noteq> [] \<and> alternatives (hd (results r)) \<noteq> [])"

definition listen_print_loop ::
  "(real \<times> response) list \<Rightarrow> exn option \<Rightarrow> state \<Rightarrow> exn option \<times> state" where
  "listen_print_loop responses ending s =
     (case for_responses (filter (\<lambda>(now, r). well_formed r) responses) ending
             (s\<lparr>num_chars_printed := 0\<rparr>) of
        (None, s') \<Rightarrow> (None, s')
      | (Some e, s') \<Rightarrow> (Some e, emit [Print_exc_type e, Print_exc_args e, Print_exc e] s'))"

section \<open>The microphone stream and its chunk generator\<close>

text \<open>
  The audio callback and the request thread of the service client run beside the transcript
  loop; they meet the rest of the program only in the queue \<open>_buff\<close> and the fields of the
  stream. They are scheduled here as a list of events: \<open>Put chunk\<close> is one call of
  \<open>_fill_buffer\<close>, \<open>Pull now\<close> lets the request thread run the generator until it yields,
  returns or blocks on the empty queue, \<open>now\<close> being what \<open>get_current_time()\<close> returns
  meanwhile. The non-blocking reads that follow a successful \<open>get()\<close> take what the queue
  holds at that moment.
\<close>

datatype audio_event = Put string | Pull int

text \<open>
  Lines 144-151, the non-blocking reads; lines 138-153, from the blocking \<open>get()\<close> to the
  \<^verbatim>\<open>yield\<close>, whose value goes out as a request; lines 131-134, the head of the loop, which
  the generator reaches when first resumed and after every \<^verbatim>\<open>yield\<close>.
\<close>

fun drain :: "string list \<Rightarrow> string option list \<Rightarrow> string option \<times> string option list" where
  "drain data [] = (Some (concat data), [])"
| "drain data (None # q) = (None, q)"
| "drain data (Some chunk # q) = drain (data @ [chunk]) q"

definition next_chunks :: "state \<Rightarrow> state" where
  "next_chunks s =
     (case buff s of
        [] \<Rightarrow> s\<lparr>gen := Waiting\<rparr>
      | None # q \<Rightarrow> s\<lparr>buff := q, gen := Ended\<rparr>
      | Some chunk # q \<Rightarrow>
          (case drain [chunk] q of
             (None, q') \<Rightarrow> s\<lparr>buff := q', gen := Ended\<rparr>
           | (Some content, q') \<Rightarrow> (emit [Request content] s)\<lparr>buff := q', gen := Ready\<rparr>))"

definition generator_next :: "int \<Rightarrow> state \<Rightarrow> state" where
  "generator_next now s =
     (case gen s of
        Ended \<Rightarrow> s
      | Waiting \<Rightarrow> next_chunks s
      | Ready \<Rightarrow>
          if closed s then s\<lparr>gen := Ended\<rparr>
          else if STREAMING_LIMIT < now - start_time s then s\<lparr>start_time := now, gen := Ended\<rparr>
          else next_chunks s)"

fun audio_step :: "state \<Rightarrow> audio_event \<Rightarrow> state" where
  "audio_step s (Put chunk) = s\<lparr>buff := buff s @ [Some chunk]\<rparr>"
| "audio_step s (Pull now) = generator_next now s"

text \<open>Construction and \<open>__enter__\<close> of a stream, and \<open>__exit__\<close>.\<close>

definition enter_mic :: "int \<Rightarrow> state \<Rightarrow> state" where
  "enter_mic now s = (emit [Acquire] s)\<lparr>buff := [], closed := False, start_time := now\<rparr>"

definition exit_mic :: "state \<Rightarrow> state" where
  "exit_mic s = (emit [Release] s)\<lparr>closed := True, buff := buff s @ [None]\<rparr>"

section \<open>The supervising loop\<close>

text \<open>
  One session is one pass through the body of \<^verbatim>\<open>while not stream.closed\<close>. The environment
  supplies, per session, the clock reading used if a stream is constructed, the schedule of
  audio events, and the responses with their ending. A state with \<open>closed\<close> set is the top of
  \<^verbatim>\<open>while (True)\<close>: the next pass constructs and enters a new stream. The audio events of a
  session are run before its responses are read.
\<close>

record session =
  opened_at :: int
  audio :: "audio_event list"
  responses :: "(real \<times> response) list"
  ending :: "exn option"

definition open_session :: "state \<Rightarrow> session \<Rightarrow> state" where
  "open_session s x =
     (let s0 = (if closed s then enter_mic (opened_at x) s else s)
      in (emit [Print ''starting stream''] s0)\<lparr>gen := Ready\<rparr>)"

definition run_session :: "state \<Rightarrow> session \<Rightarrow> state" where
  "run_session s x =
     (let s2 = foldl audio_step (open_session s x) (audio x)
      in case listen_print_loop (responses x) (ending x) s2 of
           (Some e, s3) \<Rightarrow> emit [Print_exc_type e, Print_exc_args e, Print_exc e] (exit_mic s3)
         | (None, s3) \<Rightarrow> if closed s3 then exit_mic s3 else s3)"

definition initial :: state where
  "initial = \<lparr>last_command_ts = 0, last_command_num = - 1, closed = True, buff = [],
              start_time = 0, gen = Ended, num_chars_printed = 0, out = []\<rparr>"

definition main :: "session list \<Rightarrow> state" where
  "main script = foldl run_session initial script"

section \<open>Notions used in the statements\<close>

text \<open>The messages sent on the socket, and the requests handed to the service, in a trace.\<close>

fun sends :: "effect list \<Rightarrow> json list" where
  "sends [] = []"
| "sends (Send m # es) = m # sends es"
| "sends (_ # es) = sends es"

fun requests :: "effect list \<Rightarrow> string list" where
  "requests [] = []"
| "requests (Request b # es) = b # requests es"
| "requests (_ # es) = requests es"

text \<open>Entry \<open>i\<close> of the vocabulary occurs in a text as a whole word, case-insensitively.\<close>

definition hit :: "string \<Rightarrow> nat \<Rightarrow> bool" where
  "hit text i = re_search_words [commands ! i] text"

definition voice_msg :: "int \<Rightarrow> json" where
  "voice_msg i = JObj [(''handheld'', command_dicts ! nat i)]"

text \<open>The line shown for a result: the text, padded over the previous interim line.\<close>

definition shown_line :: "string \<Rightarrow> result \<Rightarrow> state \<Rightarrow> string" where
  "shown_line tr res s =
     display_text tr res @
     replicate (num_chars_printed s - length (display_text tr res)) CHR '' ''"

text \<open>A result with one alternative, and the response that carries it.\<close>

definition result_of :: "string \<Rightarrow> real \<Rightarrow> bool \<Rightarrow> result" where
  "result_of tr st fin = \<lparr>alternatives = [\<lparr>transcript = tr\<rparr>], stability = st, is_final = fin\<rparr>"

definition response_of :: "string \<Rightarrow> real \<Rightarrow> bool \<Rightarrow> response" where
  "response_of tr st fin = \<lparr>results = [result_of tr st fin]\<rparr>"

text \<open>
  A response whose first result, if it has one, is not final and has stability 0; the
  diagnostic lines printed for an exception; a well-formed response that is accepted, holds no
  quit word and whose vocabulary scan ends on index \<open>i\<close>.
\<close>

definition unstable_interim :: "response \<Rightarrow> bool" where
  "unstable_interim r =
     (case results r of [] \<Rightarrow> True | res # _ \<Rightarrow> \<not> is_final res \<and> stability res = 0)"

definition exc_prints :: "exn option \<Rightarrow> effect list" where
  "exc_prints fate =
     (case fate of None \<Rightarrow> [] | Some e \<Rightarrow> [Print_exc_type e, Print_exc_args e, Print_exc e])"

definition utters :: "int \<Rightarrow> response \<Rightarrow> bool" where
  "utters i r =
     (case results r of
        [] \<Rightarrow> False
      | res # _ \<Rightarrow>
          (case alternatives res of
             [] \<Rightarrow> False
           | alt # _ \<Rightarrow>
               accept res \<and> \<not> re_search_words quit_words (transcript alt) \<and>
               fst (scan_commands (transcript alt)) = i))"

text \<open>
  The chunks a schedule puts into the queue, the chunks a queue holds, a response that makes
  the transcript loop close the stream, and a session that ends with the response stream
  exhausted and without such a response.
\<close>

fun puts :: "audio_event list \<Rightarrow> string list" where
  "puts [] = []"
| "puts (Put chunk # es) = chunk # puts es"
| "puts (Pull _ # es) = puts es"

fun queued :: "string option list \<Rightarrow> string list" where
  "queued [] = []"
| "queued (Some chunk # q) = chunk # queued q"
| "queued (None # q) = queued q"

definition closes :: "response \<Rightarrow> bool" where
  "closes r =
     (case results r of
        [] \<Rightarrow> False
      | res # _ \<Rightarrow>
          (case alternatives res of
             [] \<Rightarrow> False
           | alt # _ \<Rightarrow> accept res \<and> re_search_words quit_words (transcript alt)))"

definition quiet :: "session \<Rightarrow> bool" where
  "quiet x = (ending x = None \<and> (\<forall>(t, r)\<in>set (responses x). \<not> closes r))"

text \<open>
  All audio accounted for: the bytes requested so far followed by the bytes still queued. What
  the transcript loop leaves alone: the queue, the flag, the start time, the generator and the
  requests.
\<close>

definition conserved :: "state \<Rightarrow> string" where
  "conserved s = concat (requests (out s)) @ concat (queued (buff s))"

definition stream_untouched :: "state \<Rightarrow> state \<Rightarrow> bool" where
  "stream_untouched s s' =
     (buff s' = buff s \<and> closed s' = closed s \<and> start_time s' = start_time s \<and>
      gen s' = gen s \<and> requests (out s') = requests (out s))"

text \<open>Sample sessions and a state with an open stream.\<close>

definition session_a :: session where
  "session_a = \<lparr>opened_at = 0,
                 audio = [Put ''a'', Pull 10, Put ''b'', Pull 55001, Put ''c'', Put ''d''],
                 responses = [(1, response_of ''halt'' 0 True)], ending = None\<rparr>"

definition session_b :: session where
  "session_b = \<lparr>opened_at = 56000, audio = [Pull 55100, Put ''e''],
                 responses = [(56, response_of ''go slow'' 0.5 False)], ending = None\<rparr>"

definition session_x :: session where
  "session_x = \<lparr>opened_at = 0, audio = Pull 55001 # map Put [''b'', ''c''],
                 responses = [(1, response_of ''halt'' 0 True)], ending = None\<rparr>"

definition session_y :: session where
  "session_y = \<lparr>opened_at = 0, audio = [Pull 55100], responses = [], ending = None\<rparr>"

definition open_state :: state where
  "open_state = initial\<lparr>closed := False, buff := [Some ''a''], gen := Ready\<rparr>"

text \<open>The texts that follow a blank inside a pattern, and the characters of a formatted number.\<close>

fun after_blanks :: "string \<Rightarrow> string list" where
  "after_blanks [] = []"
| "after_blanks (c # cs) = (if c = CHR '' '' then [cs] else []) @ after_blanks cs"

definition inert :: "string \<Rightarrow> string \<Rightarrow> bool" where
  "inert pat w =
     (\<not> list_ex (\<lambda>v. prefix v (lower w)) (after_blanks (lower pat)) \<and>
      \<not> set (lower pat) \<subseteq> set (lower w))"

definition numeric_chars :: "char set" where
  "numeric_chars = set ''0123456789.-''"

section \<open>Whole-word search under the display suffixes\<close>

lemma blank_not_word: "\<not> is_word_char CHR '' ''"
  by (simp add: is_word_char_def)

lemma at_boundary_append:
  assumes "p \<le> length t" "suf = [] \<or> \<not> is_word_char (hd suf)"
  shows "at_boundary (t @ suf) p = at_boundary t p"
proof (cases "p < length t")
  case True
  then have "p - 1 < length t" by simp
  with True show ?thesis by (simp add: at_boundary_def nth_append)
next
  case False
  with assms have p: "p = length t" by simp
  from assms(2) have "suf = [] \<or> \<not> is_word_char (suf ! 0)"
    by (cases suf) auto
  then show ?thesis
    by (auto simp: at_boundary_def p nth_append)
qed

lemma literal_at_append:
  "i + length pat \<le> length t \<Longrightarrow> literal_at pat (t @ suf) i = literal_at pat t i"
  by (simp add: literal_at_def)

lemma after_blanks_mem: "pat = u @ CHR '' '' # v \<Longrightarrow> v \<in> set (after_blanks pat)"
  by (induction u arbitrary: pat) auto

lemma lower_blank: "lower_char CHR '' '' = CHR '' ''"
  by (simp add: lower_char_def)

lemma literal_at_overlap:
  assumes lit: "literal_at pat (t @ CHR '' '' # w) i" and over: "length t < i + length pat"
  shows "(\<exists>v\<in>set (after_blanks (lower pat)). prefix v (lower w)) \<or> set (lower pat) \<subseteq> set (lower w)"
proof (cases "i \<le> length t")
  case True
  define k where "k = length t - i"
  from lit have eq: "lower (take (length pat) (drop i (t @ CHR '' '' # w))) = lower pat"
    and len: "i + length pat \<le> length t + Suc (length w)"
    by (simp_all add: literal_at_def)
  from True have "drop i (t @ CHR '' '' # w) = drop i t @ CHR '' '' # w" by simp
  moreover have "length (drop i t) = k" by (simp add: k_def)
  moreover from over True have "k < length pat" by (simp add: k_def)
  ultimately have h: "take (length pat) (drop i (t @ CHR '' '' # w)) =
      drop i t @ CHR '' '' # take (length pat - Suc k) w"
    by (simp add: take_Cons' Suc_diff_Suc)
  from eq have "lower (drop i t @ CHR '' '' # take (length pat - Suc k) w) = lower pat"
    by (simp only: h)
  then have "lower pat = lower (drop i t) @ CHR '' '' # lower (take (length pat - Suc k) w)"
    by (simp add: lower_def lower_blank)
  then have "lower (take (length pat - Suc k) w) \<in> set (after_blanks (lower pat))"
    by (rule after_blanks_mem)
  moreover have "prefix (lower (take (length pat - Suc k) w)) (lower w)"
    by (simp add: lower_def take_is_prefix map_mono_prefix)
  ultimately show ?thesis by blast
next
  case False
  from lit have eq: "lower (take (length pat) (drop i (t @ CHR '' '' # w))) = lower pat"
    by (simp add: literal_at_def)
  from False have "set (take (length pat) (drop i (t @ CHR '' '' # w))) \<subseteq> set w"
  proof -
    from False have "drop i (t @ CHR '' '' # w) = drop (i - Suc (length t)) w"
      by (simp add: drop_Cons')
    then show ?thesis
      by (metis set_drop_subset set_take_subset subset_trans)
  qed
  then have "set (lower (take (length pat) (drop i (t @ CHR '' '' # w)))) \<subseteq> set (lower w)"
    by (auto simp: lower_def)
  with eq show ?thesis by simp
qed

lemma word_at_suffix:
  assumes "inert pat w"
  shows "word_at pat (t @ CHR '' '' # w) i = word_at pat t i"
proof (cases "i + length pat \<le> length t")
  case True
  then show ?thesis
    by (simp add: word_at_def literal_at_append at_boundary_append blank_not_word)
next
  case False
  then have over: "length t < i + length pat" by simp
  have "\<not> literal_at pat (t @ CHR '' '' # w) i"
  proof
    assume "literal_at pat (t @ CHR '' '' # w) i"
    from literal_at_overlap [OF this over] assms show False
      by (auto simp: inert_def list_ex_iff)
  qed
  moreover from False have "\<not> literal_at pat t i" by (simp add: literal_at_def)
  ultimately show ?thesis by (simp add: word_at_def)
qed

lemma re_search_words_iff:
  "re_search_words alts s = (\<exists>i\<le>length s. \<exists>pat\<in>set alts. word_at pat s i)"
proof -
  have "set [0..<Suc (length s)] = {i. i \<le> length s}" by auto
  then show ?thesis by (simp only: re_search_words_def list_ex_iff) blast
qed

lemma word_at_bound: "word_at pat s i \<Longrightarrow> i \<le> length s"
  by (simp add: word_at_def literal_at_def)

lemma re_search_words_suffix:
  assumes "\<forall>pat\<in>set alts. inert pat w"
  shows "re_search_words alts (t @ CHR '' '' # w) = re_search_words alts t"
proof -
  have "(\<exists>i\<le>length (t @ CHR '' '' # w). \<exists>pat\<in>set alts. word_at pat (t @ CHR '' '' # w) i)
      = (\<exists>i\<le>length t. \<exists>pat\<in>set alts. word_at pat t i)" (is "?L = ?R")
  proof
    assume ?L
    then obtain i pat where "pat \<in> set alts" "word_at pat (t @ CHR '' '' # w) i" by blast
    with assms have "pat \<in> set alts" "word_at pat t i" by (simp_all add: word_at_suffix)
    with word_at_bound show ?R by blast
  next
    assume ?R
    then obtain i pat where "i \<le> length t" "pat \<in> set alts" "word_at pat t i" by blast
    with assms have "i \<le> length (t @ CHR '' '' # w)" "pat \<in> set alts"
        "word_at pat (t @ CHR '' '' # w) i"
      by (simp_all add: word_at_suffix)
    then show ?L by blast
  qed
  then show ?thesis by (simp only: re_search_words_iff)
qed

lemma inert_Final: "\<forall>pat\<in>set (commands @ quit_words). inert pat ''Final''"
  by code_simp

lemma digit_char_numeric: "d < 10 \<Longrightarrow> digit_char d \<in> numeric_chars"
proof -
  assume "d < 10"
  then have "d \<in> set [0..<10]" by simp
  moreover have "\<forall>d\<in>set [0..<10]. digit_char d \<in> numeric_chars" by code_simp
  ultimately show ?thesis by blast
qed

lemma decimal_numeric: "set (decimal n) \<subseteq> numeric_chars"
proof (induction n rule: decimal.induct)
  case (1 n)
  show ?case
  proof (cases "n < 10")
    case True
    with digit_char_numeric [of n] show ?thesis by (simp add: decimal.simps [of n])
  next
    case False
    with 1 digit_char_numeric [of "n mod 10"] show ?thesis
      by (simp add: decimal.simps [of n])
  qed
qed

lemma format_2f_numeric: "set (format_2f x) \<subseteq> numeric_chars"
proof -
  define n where "n = nat (round_half_even (\<bar>x\<bar> * 100))"
  have dot: "CHR ''.'' \<in> numeric_chars" and minus: "CHR ''-'' \<in> numeric_chars"
    by (simp_all add: numeric_chars_def)
  have "n mod 100 div 10 < 10" by (simp add: div_less_iff_less_mult)
  then have 2: "digit_char (n mod 100 div 10) \<in> numeric_chars"
    by (rule digit_char_numeric)
  have 3: "digit_char (n mod 10) \<in> numeric_chars"
    by (rule digit_char_numeric) simp
  show ?thesis
    using decimal_numeric [of "n div 100"] 2 3 dot minus
    by (auto simp: format_2f_def Let_def n_def [symmetric])
qed

lemma lower_numeric: "set w \<subseteq> numeric_chars \<Longrightarrow> lower w = w"
proof -
  assume a: "set w \<subseteq> numeric_chars"
  have "\<forall>c\<in>numeric_chars. lower_char c = c" by code_simp
  with a have "\<forall>c\<in>set w. lower_char c = c" by blast
  then show ?thesis by (simp add: lower_def map_idI)
qed

lemma prefix_Cons_mem: "prefix (c # cs) w \<Longrightarrow> c \<in> set w"
  using set_mono_prefix by fastforce

lemma inert_numeric:
  assumes w: "set w \<subseteq> numeric_chars" and pat: "pat \<in> set (commands @ quit_words)"
  shows "inert pat w"
proof -
  have lw: "lower w = w" using w by (rule lower_numeric)
  have "\<forall>pat\<in>set (commands @ quit_words).
          (\<forall>v\<in>set (after_blanks (lower pat)). v \<noteq> [] \<and> hd v \<notin> numeric_chars) \<and>
          (\<exists>c\<in>set (lower pat). c \<notin> numeric_chars)"
    by code_simp
  with pat have a: "\<forall>v\<in>set (after_blanks (lower pat)). v \<noteq> [] \<and> hd v \<notin> numeric_chars"
    and b: "\<exists>c\<in>set (lower pat). c \<notin> numeric_chars" by blast+
  have "\<not> prefix v w" if "v \<in> set (after_blanks (lower pat))" for v
  proof
    assume p: "prefix v w"
    from a that obtain c cs where v: "v = c # cs" and c: "c \<notin> numeric_chars"
      by (cases v) auto
    from p have "prefix (c # cs) w" by (simp only: v)
    then have "c \<in> set w" by (rule prefix_Cons_mem)
    with w c show False by blast
  qed
  moreover from b w have "\<not> set (lower pat) \<subseteq> set w" by blast
  ultimately show ?thesis by (auto simp: inert_def lw list_ex_iff)
qed

lemma search_display_text:
  assumes "set alts \<subseteq> set (commands @ quit_words)"
  shows "re_search_words alts (display_text tr res) = re_search_words alts tr"
proof -
  have 1: "re_search_words alts (tr @ stability_str res) = re_search_words alts tr"
  proof (cases "0 < stability res")
    case True
    have "\<forall>pat\<in>set alts. inert pat (format_2f (stability res))"
      using assms inert_numeric [OF format_2f_numeric] by blast
    from re_search_words_suffix [OF this, of tr] True show ?thesis
      by (simp add: stability_str_def)
  next
    case False
    then show ?thesis by (simp add: stability_str_def)
  qed
  have 2: "re_search_words alts ((tr @ stability_str res) @ final_str res)
      = re_search_words alts (tr @ stability_str res)"
  proof (cases "is_final res")
    case True
    have "\<forall>pat\<in>set alts. inert pat ''Final''"
      using assms inert_Final by blast
    from re_search_words_suffix [OF this, of "tr @ stability_str res"] True show ?thesis
      by (simp add: final_str_def)
  next
    case False
    then show ?thesis by (simp add: final_str_def)
  qed
  from 1 2 show ?thesis by (simp add: display_text_def)
qed

section \<open>The vocabulary scan\<close>

lemma scan_step_display:
  "i < length commands \<Longrightarrow> scan_step (display_text tr res) acc i = scan_step tr acc i"
  using search_display_text [of "[commands ! i]" tr res]
  by (simp add: scan_step_def)

lemma scan_commands_display: "scan_commands (display_text tr res) = scan_commands tr"
  unfolding scan_commands_def
  by (rule foldl_cong) (simp_all add: scan_step_display)

lemma quit_display:
  "re_search_words quit_words (display_text tr res) = re_search_words quit_words tr"
  by (rule search_display_text) simp

lemma scan_prefix:
  "foldl (scan_step text) (- 1, []) [0..<n] =
     ((if \<exists>i<n. hit text i then int (Max {i. i < n \<and> hit text i}) else - 1),
      map (\<lambda>i. Print (''   Command:  '' @ commands ! i)) (filter (hit text) [0..<n]))"
proof (induction n)
  case 0
  show ?case by simp
next
  case (Suc n)
  let ?acc = "((if \<exists>i<n. hit text i then int (Max {i. i < n \<and> hit text i}) else - 1),
      map (\<lambda>i. Print (''   Command:  '' @ commands ! i)) (filter (hit text) [0..<n]))"
  have step: "foldl (scan_step text) (- 1, []) [0..<Suc n] = scan_step text ?acc n"
    by (simp only: upt_Suc_append [OF le0] foldl_append foldl.simps Suc)
  show ?case
  proof (cases "hit text n")
    case True
    have "Max {i. i < Suc n \<and> hit text i} = n"
      using True by (intro Max_eqI) auto
    moreover have "\<exists>i<Suc n. hit text i" using True by blast
    moreover have "scan_step text ?acc n =
        (int n, snd ?acc @ [Print (''   Command:  '' @ commands ! n)])"
      using True by (simp only: scan_step_def hit_def if_True)
    ultimately show ?thesis
      using True by (simp only: step) simp
  next
    case False
    then have "{i. i < Suc n \<and> hit text i} = {i. i < n \<and> hit text i}"
      using less_Suc_eq by blast
    moreover from False have "(\<exists>i<Suc n. hit text i) = (\<exists>i<n. hit text i)"
      using less_Suc_eq by blast
    moreover have "scan_step text ?acc n = ?acc"
      using False by (simp only: scan_step_def hit_def if_False)
    ultimately show ?thesis
      using False by (simp only: step) simp
  qed
qed

lemma scan_commands_eq:
  "scan_commands text =
     ((if \<exists>i<length commands. hit text i
       then int (Max {i. i < length commands \<and> hit text i}) else - 1),
      map (\<lambda>i. Print (''   Command:  '' @ commands ! i))
        (filter (hit text) [0..<length commands]))"
  unfolding scan_commands_def by (rule scan_prefix)

lemma scan_commands_range:
  "- 1 \<le> fst (scan_commands text) \<and> fst (scan_commands text) < int (length commands)"
proof (cases "\<exists>i<length commands. hit text i")
  case True
  then have "{i. i < length commands \<and> hit text i} \<noteq> {}" by blast
  then have "Max {i. i < length commands \<and> hit text i} \<in> {i. i < length commands \<and> hit text i}"
    by (intro Max_in) simp_all
  with True show ?thesis by (simp add: scan_commands_eq)
next
  case False
  then have "fst (scan_commands text) = - 1"
    by (simp only: scan_commands_eq if_False fst_conv)
  then show ?thesis by simp
qed

lemma sends_append: "sends (xs @ ys) = sends xs @ sends ys"
  by (induction xs rule: sends.induct) simp_all

lemma sends_commands_prints:
  "sends (map (\<lambda>i. Print (f i)) xs) = []"
  by (induction xs) simp_all

lemma sends_scan: "sends (snd (scan_commands text)) = []"
  by (simp add: scan_commands_eq sends_commands_prints)

section \<open>One result through the loop body\<close>

lemma process_result_interim:
  assumes "\<not> accept res"
  shows "process_result now tr res s =
     (Continue, (emit [Stdout_write (shown_line tr res s @ [CHR 0x0D])] s)
                  \<lparr>num_chars_printed := length (display_text tr res)\<rparr>)"
  using assms by (simp add: process_result_def Let_def shown_line_def)

lemma process_result_quit:
  assumes "accept res" "re_search_words quit_words tr"
  shows "process_result now tr res s =
     (Break, (emit [Print (shown_line tr res s), Print ''Exiting..''] s)\<lparr>closed := True\<rparr>)"
  using assms
  by (simp add: process_result_def Let_def shown_line_def quit_display emit_def)

lemma process_result_scan:
  assumes "accept res" "\<not> re_search_words quit_words tr"
  shows "process_result now tr res s =
     (let s2 = emit (Print (shown_line tr res s) # snd (scan_commands tr)) s
      in if - 1 < fst (scan_commands tr)
         then (case publish (fst (scan_commands tr)) now s2 of
                 (Continue, s3) \<Rightarrow> (Continue, s3\<lparr>num_chars_printed := 0\<rparr>)
               | (c, s3) \<Rightarrow> (c, s3))
         else (Continue, s2\<lparr>num_chars_printed := 0\<rparr>))"
  using assms
  by (simp add: process_result_def Let_def shown_line_def quit_display scan_commands_display
      emit_def split_beta)

lemma publish_send:
  assumes "0 \<le> i" "i < int (length commands)"
    and "\<not> (last_command_num s = i \<and> i < 6 \<and> t - last_command_ts s < 2)"
  shows "publish i t s =
     (Continue, (emit [Print_json ''   Sending: '' (voice_msg i), Send (voice_msg i)] s)
                  \<lparr>last_command_ts := t, last_command_num := i\<rparr>)"
proof -
  have "length command_dicts = length commands"
    by (simp add: command_dicts_def commands_def)
  with assms show ?thesis
    by (auto simp: publish_def Let_def voice_msg_def)
qed

lemma publish_suppress:
  assumes "last_command_num s = i" "i < 6" "t - last_command_ts s < 2"
  shows "publish i t s = (Continue, emit [Print ''   Too soon to repeat command''] s)"
  using assms by (simp add: publish_def)

lemma process_result_command:
  assumes "accept res" "\<not> re_search_words quit_words tr" "0 \<le> fst (scan_commands tr)"
  shows "process_result now tr res s =
     (let i = fst (scan_commands tr);
          s2 = emit (Print (shown_line tr res s) # snd (scan_commands tr)) s
      in if last_command_num s = i \<and> i < 6 \<and> now - last_command_ts s < 2
         then (Continue, (emit [Print ''   Too soon to repeat command''] s2)
                           \<lparr>num_chars_printed := 0\<rparr>)
         else (Continue, (emit [Print_json ''   Sending: '' (voice_msg i), Send (voice_msg i)] s2)
                           \<lparr>last_command_ts := now, last_command_num := i,
                            num_chars_printed := 0\<rparr>))"
proof -
  let ?i = "fst (scan_commands tr)"
  let ?s2 = "emit (Print (shown_line tr res s) # snd (scan_commands tr)) s"
  have range: "?i < int (length commands)" using scan_commands_range [of tr] by simp
  have g: "last_command_num ?s2 = last_command_num s" "last_command_ts ?s2 = last_command_ts s"
    by (simp_all add: emit_def)
  show ?thesis
  proof (cases "last_command_num s = ?i \<and> ?i < 6 \<and> now - last_command_ts s < 2")
    case True
    then have "publish ?i now ?s2 = (Continue, emit [Print ''   Too soon to repeat command''] ?s2)"
      by (intro publish_suppress) (simp_all add: g)
    with True assms show ?thesis
      by (simp add: process_result_scan Let_def)
  next
    case False
    then have "publish ?i now ?s2 =
       (Continue, (emit [Print_json ''   Sending: '' (voice_msg ?i), Send (voice_msg ?i)] ?s2)
                  \<lparr>last_command_ts := now, last_command_num := ?i\<rparr>)"
      using assms(3) range by (intro publish_send) (simp_all add: g)
    with False assms show ?thesis
      by (auto simp: process_result_scan Let_def)
  qed
qed

lemma process_result_no_command:
  assumes "accept res" "\<not> re_search_words quit_words tr" "fst (scan_commands tr) = - 1"
  shows "process_result now tr res s =
     (Continue, (emit (Print (shown_line tr res s) # snd (scan_commands tr)) s)
                  \<lparr>num_chars_printed := 0\<rparr>)"
  using assms by (simp add: process_result_scan Let_def)

lemma scan_go_slow: "scan_commands ''go slow'' = (3, [Print ''   Command:  go slow''])"
  by code_simp

lemma no_quit_go_slow: "\<not> re_search_words quit_words ''go slow''"
  by code_simp

lemma scan_halt: "scan_commands ''halt'' = (10, [Print ''   Command:  halt''])"
  by code_simp

lemma no_quit_halt: "\<not> re_search_words quit_words ''halt''"
  by code_simp

lemma process_response_top:
  assumes "results r = res # others" "alternatives res = alt # alts"
  shows "process_response t r s = process_result t (transcript alt) res s"
  using assms by (simp add: process_response_def)

lemma sends_command:
  assumes "accept res" and "\<not> re_search_words quit_words tr"
    and "fst (scan_commands tr) = i" and "0 \<le> i"
  shows "sends (out (snd (process_result t tr res s))) =
           sends (out s) @
           (if last_command_num s = i \<and> i < 6 \<and> t - last_command_ts s < 2
            then [] else [voice_msg i])"
  using assms
  by (simp add: process_result_command Let_def emit_def sends_append sends_scan)

lemma hits_last:
  "filter (hit text) [0..<n] \<noteq> [] \<Longrightarrow>
     last (filter (hit text) [0..<n]) = Max {i. i < n \<and> hit text i}"
proof (induction n)
  case 0
  then show ?case by simp
next
  case (Suc n)
  show ?case
  proof (cases "hit text n")
    case True
    have "Max {i. i < Suc n \<and> hit text i} = n"
      using True by (intro Max_eqI) auto
    with True show ?thesis by simp
  next
    case False
    then have "{i. i < Suc n \<and> hit text i} = {i. i < n \<and> hit text i}"
      using less_Suc_eq by blast
    with False Suc show ?thesis by simp
  qed
qed

lemma hits_empty: "(filter (hit text) [0..<n] = []) = (\<not> (\<exists>i<n. hit text i))"
  by (auto simp: filter_empty_conv)

lemma scan_commands_last:
  "fst (scan_commands text) =
     (let hits = filter (hit text) [0..<length commands]
      in if hits = [] then - 1 else int (last hits))"
  by (simp add: scan_commands_eq Let_def hits_empty hits_last)

lemma hits_stop_halt: "filter (hit ''go stop and halt'') [0..<length commands] = [7, 9, 10]"
  by code_simp

lemma no_quit_stop_halt: "\<not> re_search_words quit_words ''go stop and halt''"
  by code_simp

lemma scan_go_fast: "scan_commands ''go fast'' = (4, [Print ''   Command:  go fast''])"
  by code_simp

lemma no_quit_go_fast: "\<not> re_search_words quit_words ''go fast''"
  by code_simp

lemma voice_msg_4:
  "voice_msg 4 = JObj [(''handheld'', JObj [(''move'',
      JObj [(''speed'', JFloat 1.0), (''duration'', JFloat 7200.0), (''distance'', JFloat 0.0)])])]"
  by (simp add: voice_msg_def command_dicts_def move_def)

lemma quit_go_fast_quit: "re_search_words quit_words ''go fast quit''"
  by code_simp

lemma hit_go_fast_quit: "hit ''go fast quit'' 4"
  by code_simp

section \<open>The loop over the responses\<close>

lemma listen_print_loop_eq:
  "listen_print_loop rs fate s =
     (let (e, s') = for_responses (filter (\<lambda>(now, r). well_formed r) rs) fate
                      (s\<lparr>num_chars_printed := 0\<rparr>)
      in (e, emit (exc_prints e) s'))"
  by (simp add: listen_print_loop_def exc_prints_def emit_def split: prod.splits option.splits)

lemma process_response_malformed:
  "\<not> well_formed r \<Longrightarrow> process_response t r s = (Continue, s)"
  by (auto simp: well_formed_def process_response_def split: list.splits)

lemma process_result_interim_out:
  assumes "\<not> accept res"
  shows "process_result now tr res s =
     (Continue, s\<lparr>num_chars_printed := length (display_text tr res),
                   out := out s @ [Stdout_write (shown_line tr res s @ [CHR 0x0D])]\<rparr>)"
  using assms by (simp add: process_result_interim emit_def)

lemma process_response_unstable:
  assumes "unstable_interim r" "well_formed r"
  shows "\<exists>n w. process_response t r s =
            (Continue, s\<lparr>num_chars_printed := n, out := out s @ [Stdout_write w]\<rparr>)"
proof -
  from assms obtain res others alt alts where r: "results r = res # others"
      "alternatives res = alt # alts" "\<not> is_final res" "stability res = 0"
    by (auto simp: unstable_interim_def well_formed_def neq_Nil_conv)
  then have "\<not> accept res" by (simp add: accept_def)
  from process_result_interim_out [OF this, of t "transcript alt" s] r(1,2)
  have "process_response t r s =
     (Continue, s\<lparr>num_chars_printed := length (display_text (transcript alt) res),
                   out := out s @ [Stdout_write (shown_line (transcript alt) res s @ [CHR 0x0D])]\<rparr>)"
    by (simp add: process_response_top)
  then show ?thesis by blast
qed

lemma for_responses_unstable:
  assumes "\<forall>(t, r)\<in>set rs. unstable_interim r \<and> well_formed r"
  shows "\<exists>n ws. for_responses rs fate s =
            (fate, s\<lparr>num_chars_printed := n, out := out s @ map Stdout_write ws\<rparr>)"
  using assms
proof (induction rs arbitrary: s)
  case Nil
  have "s = s\<lparr>num_chars_printed := num_chars_printed s, out := out s @ map Stdout_write []\<rparr>"
    by simp
  then show ?case by (metis for_responses.simps(1))
next
  case (Cons x rs)
  obtain t r where x: "x = (t, r)" by (cases x)
  with Cons.prems have "unstable_interim r" "well_formed r" by auto
  from process_response_unstable [OF this] obtain n w where
    step: "process_response t r s =
       (Continue, s\<lparr>num_chars_printed := n, out := out s @ [Stdout_write w]\<rparr>)" by blast
  let ?s1 = "s\<lparr>num_chars_printed := n, out := out s @ [Stdout_write w]\<rparr>"
  from Cons.prems have "\<forall>(t, r)\<in>set rs. unstable_interim r \<and> well_formed r" by simp
  from Cons.IH [OF this, of ?s1] obtain m ws where
    "for_responses rs fate ?s1 =
       (fate, ?s1\<lparr>num_chars_printed := m, out := out ?s1 @ map Stdout_write ws\<rparr>)" by blast
  then have "for_responses (x # rs) fate s =
       (fate, s\<lparr>num_chars_printed := m, out := out s @ map Stdout_write (w # ws)\<rparr>)"
    by (simp add: x step)
  then show ?case by blast
qed

lemma process_result_accepted_out:
  assumes "accept res"
  shows "\<exists>rest. out (snd (process_result t tr res s)) = out s @ Print (shown_line tr res s) # rest"
proof (cases "re_search_words quit_words tr")
  case True
  from process_result_quit [OF assms this] show ?thesis by (simp add: emit_def)
next
  case False
  show ?thesis
  proof (cases "0 \<le> fst (scan_commands tr)")
    case True
    from process_result_command [OF assms False this] show ?thesis
      by (simp add: Let_def emit_def)
  next
    case False
    with scan_commands_range [of tr] have "fst (scan_commands tr) = - 1" by simp
    from process_result_no_command [OF assms \<open>\<not> re_search_words quit_words tr\<close> this]
    show ?thesis by (simp add: emit_def)
  qed
qed

lemma process_response_Break:
  "process_response t r s = (Break, s') \<Longrightarrow> closed s'"
proof -
  assume a: "process_response t r s = (Break, s')"
  show ?thesis
  proof (cases "well_formed r")
    case False
    with a show ?thesis by (simp add: process_response_malformed)
  next
    case True
    then obtain res others alt alts where r: "results r = res # others"
        "alternatives res = alt # alts"
      by (auto simp: well_formed_def neq_Nil_conv)
    with a have b: "process_result t (transcript alt) res s = (Break, s')"
      by (simp add: process_response_top)
    show ?thesis
    proof (cases "accept res")
      case False
      with b show ?thesis by (simp add: process_result_interim)
    next
      case True
      note acc = this
      show ?thesis
      proof (cases "re_search_words quit_words (transcript alt)")
        case True
        from b process_result_quit [OF acc True, of t s] show ?thesis by auto
      next
        case False
        note nq = this
        show ?thesis
        proof (cases "0 \<le> fst (scan_commands (transcript alt))")
          case True
          from b process_result_command [OF acc nq True, of t s] show ?thesis
            by (auto simp: Let_def split: if_splits)
        next
          case False
          with scan_commands_range [of "transcript alt"]
          have "fst (scan_commands (transcript alt)) = - 1" by simp
          from b process_result_no_command [OF acc nq this, of t s] show ?thesis by simp
        qed
      qed
    qed
  qed
qed

lemma closed_kept: "process_response t r s = (c, s') \<Longrightarrow> closed s \<Longrightarrow> closed s'"
proof -
  assume a: "process_response t r s = (c, s')" and cl: "closed s"
  show ?thesis
  proof (cases "well_formed r")
    case False
    with a cl show ?thesis by (simp add: process_response_malformed)
  next
    case True
    then obtain res others alt alts where r: "results r = res # others"
        "alternatives res = alt # alts"
      by (auto simp: well_formed_def neq_Nil_conv)
    with a have b: "process_result t (transcript alt) res s = (c, s')"
      by (simp add: process_response_top)
    show ?thesis
    proof (cases "accept res")
      case False
      with b cl show ?thesis by (auto simp: process_result_interim emit_def)
    next
      case True
      note acc = this
      show ?thesis
      proof (cases "re_search_words quit_words (transcript alt)")
        case True
        from b process_result_quit [OF acc True, of t s] show ?thesis by auto
      next
        case False
        note nq = this
        show ?thesis
        proof (cases "0 \<le> fst (scan_commands (transcript alt))")
          case True
          from b cl process_result_command [OF acc nq True, of t s] show ?thesis
            by (auto simp: Let_def emit_def split: if_splits)
        next
          case False
          with scan_commands_range [of "transcript alt"]
          have "fst (scan_commands (transcript alt)) = - 1" by simp
          from b cl process_result_no_command [OF acc nq this, of t s] show ?thesis
            by (auto simp: emit_def)
        qed
      qed
    qed
  qed
qed

lemma for_responses_closed_kept:
  "for_responses rs fate s = (e, s') \<Longrightarrow> closed s \<Longrightarrow> closed s'"
proof (induction rs arbitrary: s)
  case Nil
  then show ?case by simp
next
  case (Cons x rs)
  obtain t r where x: "x = (t, r)" by (cases x)
  obtain c s1 where step: "process_response t r s = (c, s1)" by (cases "process_response t r s")
  from closed_kept [OF step Cons.prems(2)] have c1: "closed s1" .
  show ?case
  proof (cases c)
    case Continue
    with Cons.prems(1) x step have "for_responses rs fate s1 = (e, s')" by simp
    from Cons.IH [OF this c1] show ?thesis .
  next
    case Break
    with Cons.prems(1) x step c1 show ?thesis by simp
  next
    case (Raise e')
    with Cons.prems(1) x step c1 show ?thesis by simp
  qed
qed

lemma for_responses_append_open:
  assumes "for_responses xs None s = (None, s1)" and "\<not> closed s1"
  shows "for_responses (xs @ ys) fate s = for_responses ys fate s1"
  using assms
proof (induction xs arbitrary: s)
  case Nil
  then show ?case by simp
next
  case (Cons x xs)
  obtain t r where x: "x = (t, r)" by (cases x)
  obtain c s' where step: "process_response t r s = (c, s')" by (cases "process_response t r s")
  show ?case
  proof (cases c)
    case Continue
    with Cons.prems(1) x step have "for_responses xs None s' = (None, s1)" by simp
    from Cons.IH [OF this Cons.prems(2)] Continue x step show ?thesis by simp
  next
    case Break
    with Cons.prems(1) x step have "s1 = s'" by simp
    with process_response_Break step Break Cons.prems(2) show ?thesis by blast
  next
    case (Raise e)
    with Cons.prems(1) x step show ?thesis by simp
  qed
qed

lemma listen_print_loop_None:
  assumes "listen_print_loop rs None s = (None, s1)"
  shows "for_responses (filter (\<lambda>(now, r). well_formed r) rs) None (s\<lparr>num_chars_printed := 0\<rparr>)
           = (None, s1)"
  using assms
  by (auto simp: listen_print_loop_def emit_def split: prod.splits option.splits)

lemma quit_please_exit: "re_search_words quit_words ''please exit now''"
  by code_simp

lemma listen_halt:
  "listen_print_loop [(1, response_of ''halt'' 0 True)] None
     (initial\<lparr>closed := False\<rparr>) =
     (None, (emit [Print ''halt Final'', Print ''   Command:  halt'',
                   Print_json ''   Sending: '' (voice_msg 10), Send (voice_msg 10)]
               (initial\<lparr>closed := False\<rparr>))\<lparr>last_command_ts := 1, last_command_num := 10\<rparr>)"
proof -
  have a: "accept (result_of ''halt'' 0 True)" by (simp add: accept_def result_of_def)
  have i: "0 \<le> fst (scan_commands ''halt'')" by (simp add: scan_halt)
  have "process_result 1 ''halt'' (result_of ''halt'' 0 True)
          (initial\<lparr>closed := False, num_chars_printed := 0\<rparr>) =
     (Continue, (emit [Print ''halt Final'', Print ''   Command:  halt'',
                   Print_json ''   Sending: '' (voice_msg 10), Send (voice_msg 10)]
               (initial\<lparr>closed := False\<rparr>))\<lparr>last_command_ts := 1, last_command_num := 10\<rparr>)"
    using process_result_command [OF a no_quit_halt i, of 1
        "initial\<lparr>closed := False, num_chars_printed := 0\<rparr>"]
    by (simp add: Let_def scan_halt initial_def emit_def shown_line_def display_text_def
        stability_str_def final_str_def result_of_def)
  then show ?thesis
    by (simp add: listen_print_loop_def well_formed_def response_of_def process_response_def
        result_of_def)
qed

lemma utters_well_formed: "utters i r \<Longrightarrow> well_formed r"
  by (auto simp: utters_def well_formed_def split: list.splits)

lemma utters_suppressed:
  assumes "utters i r" and "last_command_num s = i" and "0 \<le> i" and "i < 6"
    and "t - last_command_ts s < 2"
  shows "\<exists>s'. process_response t r s = (Continue, s') \<and> sends (out s') = sends (out s) \<and>
            last_command_ts s' = last_command_ts s \<and> last_command_num s' = i"
proof -
  from assms(1) obtain res others alt alts where r: "results r = res # others"
      "alternatives res = alt # alts" "accept res"
      "\<not> re_search_words quit_words (transcript alt)"
      "fst (scan_commands (transcript alt)) = i"
    by (auto simp: utters_def split: list.splits)
  from r(5) assms(3) have "0 \<le> fst (scan_commands (transcript alt))" by simp
  from process_result_command [OF r(3,4) this, of t s] r(1,2,5) assms(2,4,5)
  show ?thesis
    by (simp add: process_response_top Let_def emit_def sends_append sends_scan)
qed

lemma utters_sent:
  assumes "utters i r" and "0 \<le> i"
    and "\<not> (last_command_num s = i \<and> i < 6 \<and> t - last_command_ts s < 2)"
  shows "\<exists>s'. process_response t r s = (Continue, s') \<and>
            sends (out s') = sends (out s) @ [voice_msg i] \<and>
            last_command_ts s' = t \<and> last_command_num s' = i"
proof -
  from assms(1) obtain res others alt alts where r: "results r = res # others"
      "alternatives res = alt # alts" "accept res"
      "\<not> re_search_words quit_words (transcript alt)"
      "fst (scan_commands (transcript alt)) = i"
    by (auto simp: utters_def split: list.splits)
  from r(5) assms(2) have "0 \<le> fst (scan_commands (transcript alt))" by simp
  from process_result_command [OF r(3,4) this, of t s] r(1,2,5) assms(3)
  show ?thesis
    by (auto simp: process_response_top Let_def emit_def sends_append sends_scan)
qed

lemma suppressed_run:
  assumes "\<forall>(t, r)\<in>set attempts. utters i r \<and> t - last_command_ts s < 2"
    and "last_command_num s = i" and "0 \<le> i" and "i < 6"
  shows "\<exists>s1. for_responses (attempts @ rest) fate s = for_responses rest fate s1 \<and>
            sends (out s1) = sends (out s) \<and>
            last_command_ts s1 = last_command_ts s \<and> last_command_num s1 = i"
  using assms
proof (induction attempts arbitrary: s)
  case Nil
  then show ?case by auto
next
  case (Cons x xs)
  obtain t r where x: "x = (t, r)" by (cases x)
  with Cons.prems(1) have u: "utters i r" and soon: "t - last_command_ts s < 2" by auto
  from utters_suppressed [OF u Cons.prems(2,3,4) soon] obtain s' where
    step: "process_response t r s = (Continue, s')" and keep: "sends (out s') = sends (out s)"
      "last_command_ts s' = last_command_ts s" "last_command_num s' = i"
    by blast
  from Cons.prems(1) keep(2)
  have "\<forall>(t, r)\<in>set xs. utters i r \<and> t - last_command_ts s' < 2" by auto
  from Cons.IH [OF this keep(3) Cons.prems(3,4)] obtain s1 where
    run: "for_responses (xs @ rest) fate s' = for_responses rest fate s1"
    "sends (out s1) = sends (out s')" "last_command_ts s1 = last_command_ts s'"
    "last_command_num s1 = i"
    by blast
  from step x run(1) have "for_responses ((x # xs) @ rest) fate s = for_responses rest fate s1"
    by simp
  with keep run(2,3,4) show ?case by auto
qed

lemma utters_go_slow: "utters 3 (response_of ''go slow'' st True)"
  by (simp add: utters_def response_of_def result_of_def accept_def no_quit_go_slow scan_go_slow)

section \<open>Repeat suppression\<close>

text \<open>
  Claim C1. An accepted result without a quit word whose vocabulary scan ends on index \<open>i\<close>,
  handled at time \<open>t\<close>, sends nothing exactly when \<open>i\<close> is the last sent index, \<open>i < 6\<close> and
  \<open>t\<close> is less than 2 seconds after the last sent time; otherwise it sends the message of
  entry \<open>i\<close>. So a repeat of an index below 6 within 2 seconds is suppressed, the same repeat
  after 2 seconds or more is sent, and an index of 6 or more is always sent.
\<close>

theorem repeat_suppression:
  assumes "accept res" and "\<not> re_search_words quit_words tr"
    and "fst (scan_commands tr) = i" and "0 \<le> i"
  shows "sends (out (snd (process_result t tr res s))) =
           sends (out s) @
           (if last_command_num s = i \<and> i < 6 \<and> t - last_command_ts s < 2
            then [] else [voice_msg i])"
  using assms
  by (simp add: process_result_command Let_def emit_def sends_append sends_scan)

theorem repeat_suppression_witness:
  "sends (out (snd (process_result 11 ''go slow'' (result_of ''go slow'' 0 True)
      (initial\<lparr>last_command_ts := 10, last_command_num := 3\<rparr>)))) = [] \<and>
   sends (out (snd (process_result 12 ''go slow'' (result_of ''go slow'' 0 True)
      (initial\<lparr>last_command_ts := 10, last_command_num := 3\<rparr>)))) = [voice_msg 3] \<and>
   sends (out (snd (process_result 11 ''halt'' (result_of ''halt'' 0 True)
      (initial\<lparr>last_command_ts := 10, last_command_num := 10\<rparr>)))) = [voice_msg 10]"
proof -
  have a: "accept (result_of tr 0 True)" for tr
    by (simp add: accept_def result_of_def)
  have slow: "fst (scan_commands ''go slow'') = 3" and halt: "fst (scan_commands ''halt'') = 10"
    by (simp_all add: scan_go_slow scan_halt)
  show ?thesis
    using repeat_suppression [where t = 11 and i = 3
        and s = "initial\<lparr>last_command_ts := 10, last_command_num := 3\<rparr>",
        OF a no_quit_go_slow slow]
      repeat_suppression [where t = 12 and i = 3
        and s = "initial\<lparr>last_command_ts := 10, last_command_num := 3\<rparr>",
        OF a no_quit_go_slow slow]
      repeat_suppression [where t = 11 and i = 10
        and s = "initial\<lparr>last_command_ts := 10, last_command_num := 10\<rparr>",
        OF a no_quit_halt halt]
    by (simp add: initial_def)
qed

section \<open>The vocabulary scan keeps the last match\<close>

text \<open>
  Claim C4. For an accepted result without a quit word, the scan over the vocabulary visits
  every entry in list order (each matching entry prints its line), and the index it ends on is
  the last, that is the largest, index whose phrase occurs in the transcript as a whole word,
  case-insensitively, or \<open>- 1\<close> when none does. With no match nothing is sent; with a match
  the only message that can be sent is that of the last matching entry.
\<close>

theorem last_match_wins:
  assumes "accept res" and "\<not> re_search_words quit_words tr"
  shows "(let hits = filter (hit tr) [0..<length commands];
              found = scan_commands (display_text tr res)
          in fst found = (if hits = [] then - 1 else int (last hits)) \<and>
             (hits \<noteq> [] \<longrightarrow> last hits = Max {i. i < length commands \<and> hit tr i}) \<and>
             snd found = map (\<lambda>i. Print (''   Command:  '' @ commands ! i)) hits \<and>
             sends (out (snd (process_result t tr res s))) =
               sends (out s) @
               (if hits = [] then []
                else if last_command_num s = int (last hits) \<and> last hits < 6 \<and>
                        t - last_command_ts s < 2
                then [] else [voice_msg (int (last hits))]))"
proof -
  let ?hits = "filter (hit tr) [0..<length commands]"
  have idx: "fst (scan_commands tr) = (if ?hits = [] then - 1 else int (last ?hits))"
    by (simp add: scan_commands_last Let_def)
  have prints: "snd (scan_commands tr) = map (\<lambda>i. Print (''   Command:  '' @ commands ! i)) ?hits"
    by (simp add: scan_commands_eq)
  have sent: "sends (out (snd (process_result t tr res s))) =
      sends (out s) @
      (if ?hits = [] then []
       else if last_command_num s = int (last ?hits) \<and> last ?hits < 6 \<and>
               t - last_command_ts s < 2
       then [] else [voice_msg (int (last ?hits))])"
  proof (cases "?hits = []")
    case True
    with idx have "fst (scan_commands tr) = - 1" by simp
    from process_result_no_command [OF assms this] True show ?thesis
      by (simp add: emit_def sends_append sends_scan)
  next
    case False
    with idx have i: "fst (scan_commands tr) = int (last ?hits)" by simp
    from sends_command [OF assms i] False show ?thesis by simp
  qed
  from idx prints sent hits_last [of tr "length commands"] show ?thesis
    by (simp add: Let_def scan_commands_display)
qed

theorem last_match_wins_witness:
  "fst (scan_commands (display_text ''go stop and halt'' (result_of ''go stop and halt'' 0 True))) = 10 \<and>
   snd (scan_commands (display_text ''go stop and halt'' (result_of ''go stop and halt'' 0 True))) =
     [Print ''   Command:  go stop'', Print ''   Command:  stop'', Print ''   Command:  halt''] \<and>
   sends (out (snd (process_result 5 ''go stop and halt''
     (result_of ''go stop and halt'' 0 True) initial))) = [voice_msg 10]"
proof -
  have a: "accept (result_of ''go stop and halt'' 0 True)"
    by (simp add: accept_def result_of_def)
  note w = last_match_wins [where t = 5 and s = initial, OF a no_quit_stop_halt,
      unfolded Let_def hits_stop_halt]
  then show ?thesis
    by (simp add: initial_def commands_def)
qed

section \<open>The message for "go fast"\<close>

text \<open>
  Claim C5. A final result whose top transcript is "go fast", handled when it is not a too-soon
  repeat of index 4, sends exactly one message, the JSON object
  \<^verbatim>\<open>{"handheld": {"move": {"speed": 1.0, "duration": 7200.0, "distance": 0.0}}}\<close>, and records
  index 4 and the time. The message is the JSON value given to \<^verbatim>\<open>json.dumps\<close>; the order in
  which a dictionary lists its keys is not part of it.
\<close>

theorem go_fast_message:
  assumes "results r = res # others" and "alternatives res = alt # alts"
    and "transcript alt = ''go fast''" and "is_final res"
    and "\<not> (last_command_num s = 4 \<and> t - last_command_ts s < 2)"
  shows "process_response t r s =
      (Continue,
       (emit [Print (shown_line ''go fast'' res s), Print ''   Command:  go fast'',
              Print_json ''   Sending: ''
                (JObj [(''handheld'', JObj [(''move'',
                   JObj [(''speed'', JFloat 1.0), (''duration'', JFloat 7200.0),
                         (''distance'', JFloat 0.0)])])]),
              Send (JObj [(''handheld'', JObj [(''move'',
                   JObj [(''speed'', JFloat 1.0), (''duration'', JFloat 7200.0),
                         (''distance'', JFloat 0.0)])])])] s)
         \<lparr>last_command_ts := t, last_command_num := 4, num_chars_printed := 0\<rparr>) \<and>
     sends (out (snd (process_response t r s))) =
       sends (out s) @
       [JObj [(''handheld'', JObj [(''move'',
          JObj [(''speed'', JFloat 1.0), (''duration'', JFloat 7200.0),
                (''distance'', JFloat 0.0)])])]]"
proof -
  have acc: "accept res" using assms(4) by (simp add: accept_def)
  have idx: "0 \<le> fst (scan_commands ''go fast'')" by (simp add: scan_go_fast)
  have eq: "process_response t r s = process_result t ''go fast'' res s"
    using assms(1-3) by (simp add: process_response_top)
  from process_result_command [OF acc no_quit_go_fast idx, of t s] assms(5)
  have "process_result t ''go fast'' res s =
      (Continue,
       (emit [Print_json ''   Sending: '' (voice_msg 4), Send (voice_msg 4)]
          (emit [Print (shown_line ''go fast'' res s), Print ''   Command:  go fast''] s))
         \<lparr>last_command_ts := t, last_command_num := 4, num_chars_printed := 0\<rparr>)"
    by (auto simp: Let_def scan_go_fast)
  then show ?thesis
    by (simp add: eq voice_msg_4 emit_def sends_append)
qed

theorem go_fast_message_witness:
  "sends (out (snd (process_response 1 (response_of ''go fast'' 0 True) initial))) =
     [JObj [(''handheld'', JObj [(''move'',
        JObj [(''speed'', JFloat 1.0), (''duration'', JFloat 7200.0),
              (''distance'', JFloat 0.0)])])]]"
proof -
  have "sends (out (snd (process_response 1 (response_of ''go fast'' 0 True) initial))) =
     sends (out initial) @
     [JObj [(''handheld'', JObj [(''move'',
        JObj [(''speed'', JFloat 1.0), (''duration'', JFloat 7200.0),
              (''distance'', JFloat 0.0)])])]]"
    by (rule go_fast_message [where res = "result_of ''go fast'' 0 True" and others = "[]"
          and alt = "\<lparr>transcript = ''go fast''\<rparr>" and alts = "[]", THEN conjunct2])
      (simp_all add: response_of_def result_of_def initial_def)
  then show ?thesis by (simp add: initial_def)
qed

section \<open>Quit words come first\<close>

text \<open>
  Claim C10. An accepted result whose transcript holds a quit word ("exit" or "quit" as a
  whole word, in any case) and also one or more vocabulary phrases leaves the loop at the quit
  check: the stream is marked closed, nothing is sent for the transcript, and the
  repeat-suppression state is unchanged.
\<close>

theorem quit_precedence:
  assumes "results r = res # others" and "alternatives res = alt # alts"
    and "accept res" and "re_search_words quit_words (transcript alt)"
    and "\<exists>i<length commands. hit (transcript alt) i"
  shows "process_response t r s =
      (Break, (emit [Print (shown_line (transcript alt) res s), Print ''Exiting..''] s)
                \<lparr>closed := True\<rparr>) \<and>
     closed (snd (process_response t r s)) \<and>
     sends (out (snd (process_response t r s))) = sends (out s) \<and>
     last_command_num (snd (process_response t r s)) = last_command_num s \<and>
     last_command_ts (snd (process_response t r s)) = last_command_ts s"
  using assms(1-4)
  by (simp add: process_response_top process_result_quit emit_def sends_append)

theorem quit_precedence_witness:
  "process_response 1 (response_of ''go fast quit'' 0 True) initial =
     (Break, (emit [Print ''go fast quit Final'', Print ''Exiting..''] initial)\<lparr>closed := True\<rparr>)"
proof -
  have h: "\<exists>i<length commands. hit ''go fast quit'' i"
    using hit_go_fast_quit by (intro exI [of _ 4]) (simp add: commands_def)
  have a: "accept (result_of ''go fast quit'' 0 True)"
    by (simp add: accept_def result_of_def)
  show ?thesis
    using quit_precedence [where r = "response_of ''go fast quit'' 0 True"
      and res = "result_of ''go fast quit'' 0 True" and others = "[]"
      and alt = "\<lparr>transcript = ''go fast quit''\<rparr>" and alts = "[]" and t = 1 and s = initial]
      h a quit_go_fast_quit
    by (simp add: response_of_def result_of_def initial_def shown_line_def display_text_def
        stability_str_def final_str_def)
qed

section \<open>Unstable interim results\<close>

text \<open>
  Claim C3. When every response of a session has a first result that is not final and has
  stability 0, the transcript loop only writes interim lines to the terminal: it sends no
  command message and changes nothing else in the state. One result is display-only in this
  sense exactly when it is neither final nor of positive stability; that is, a result is
  accepted for matching exactly when it is final or its stability is above 0.
\<close>

theorem unstable_interim_silent:
  assumes "\<forall>(t, r)\<in>set rs. unstable_interim r"
  shows "(\<exists>n ws. listen_print_loop rs fate s =
            (fate, s\<lparr>num_chars_printed := n,
                        out := out s @ map Stdout_write ws @ exc_prints fate\<rparr>)) \<and>
         sends (out (snd (listen_print_loop rs fate s))) = sends (out s) \<and>
         ((\<exists>n w. process_result t tr res s =
                   (Continue, s\<lparr>num_chars_printed := n, out := out s @ [Stdout_write w]\<rparr>))
            = (\<not> (is_final res \<or> 0 < stability res)))"
proof -
  let ?rs = "filter (\<lambda>(now, r). well_formed r) rs"
  from assms have "\<forall>(t, r)\<in>set ?rs. unstable_interim r \<and> well_formed r" by auto
  from for_responses_unstable [OF this, of fate "s\<lparr>num_chars_printed := 0\<rparr>"]
  obtain n ws where run: "for_responses ?rs fate (s\<lparr>num_chars_printed := 0\<rparr>) =
       (fate, s\<lparr>num_chars_printed := n, out := out s @ map Stdout_write ws\<rparr>)"
    by auto
  then have eq: "listen_print_loop rs fate s =
       (fate, s\<lparr>num_chars_printed := n,
                   out := out s @ map Stdout_write ws @ exc_prints fate\<rparr>)"
    by (simp add: listen_print_loop_eq emit_def)
  have silent: "sends (map Stdout_write ws) = []" for ws
    by (induction ws) simp_all
  have exc: "sends (exc_prints fate) = []"
    by (simp add: exc_prints_def split: option.splits)
  have 2: "sends (out (snd (listen_print_loop rs fate s))) = sends (out s)"
    by (simp add: eq sends_append silent exc)
  have 3: "(\<exists>n w. process_result t tr res s =
                   (Continue, s\<lparr>num_chars_printed := n, out := out s @ [Stdout_write w]\<rparr>))
            = (\<not> (is_final res \<or> 0 < stability res))"
  proof (cases "accept res")
    case True
    from process_result_accepted_out [OF this, of t tr s] obtain rest where
      "out (snd (process_result t tr res s)) = out s @ Print (shown_line tr res s) # rest"
      by blast
    then have "\<not> (\<exists>n w. process_result t tr res s =
                   (Continue, s\<lparr>num_chars_printed := n, out := out s @ [Stdout_write w]\<rparr>))"
      by auto
    with True show ?thesis by (auto simp: accept_def)
  next
    case False
    from process_result_interim_out [OF this, of t tr s]
    have "\<exists>n w. process_result t tr res s =
                   (Continue, s\<lparr>num_chars_printed := n, out := out s @ [Stdout_write w]\<rparr>)"
      by blast
    with False show ?thesis by (auto simp: accept_def)
  qed
  from eq 2 3 show ?thesis by blast
qed

theorem unstable_interim_silent_witness:
  "sends (out (snd (listen_print_loop
      [(1, response_of ''go fast'' 0 False), (2, response_of ''quit'' 0 False)] None initial))) = []"
proof -
  have "\<forall>(t, r)\<in>set [(1 :: real, response_of ''go fast'' 0 False),
      (2, response_of ''quit'' 0 False)]. unstable_interim r"
    by (simp add: unstable_interim_def response_of_def result_of_def)
  from unstable_interim_silent [OF this, THEN conjunct2, THEN conjunct1, of None initial]
  show ?thesis by (simp add: initial_def)
qed

section \<open>Malformed responses\<close>

text \<open>
  Claim C8. A response with an empty results list, or whose first result has no alternatives,
  is dropped before the loop body sees it: the transcript loop behaves as if the response were
  not in the stream (no output, no message, no state change, no exception), and the loop body
  itself would skip it.
\<close>

theorem malformed_filtered:
  assumes "results r = [] \<or> alternatives (hd (results r)) = []"
  shows "listen_print_loop (pre @ (t, r) # post) fate s = listen_print_loop (pre @ post) fate s \<and>
         process_response t r s = (Continue, s)"
proof -
  from assms have "\<not> well_formed r" by (auto simp: well_formed_def)
  then show ?thesis
    by (simp add: listen_print_loop_def process_response_malformed)
qed

theorem malformed_filtered_witness:
  "listen_print_loop [(1, response_of ''halt'' 0 True), (2, \<lparr>results = []\<rparr>),
       (3, \<lparr>results = [\<lparr>alternatives = [], stability = 0.9, is_final = True\<rparr>]\<rparr>)] None initial =
   listen_print_loop [(1, response_of ''halt'' 0 True)] None initial \<and>
   process_response 2 \<lparr>results = []\<rparr> initial = (Continue, initial)"
  using malformed_filtered [of "\<lparr>results = []\<rparr>" "[(1, response_of ''halt'' 0 True)]" 2
      "[(3, \<lparr>results = [\<lparr>alternatives = [], stability = 0.9, is_final = True\<rparr>]\<rparr>)]" None initial]
    malformed_filtered [of "\<lparr>results = [\<lparr>alternatives = [], stability = 0.9, is_final = True\<rparr>]\<rparr>"
      "[(1, response_of ''halt'' 0 True)]" 3 "[]" None initial]
  by simp

section \<open>A quit word closes the session\<close>

text \<open>
  Claim C6. When the transcript loop has handled some responses without leaving and the next
  one is an accepted result whose transcript holds "exit" or "quit" as a whole word, in any
  case, the loop marks the stream closed and returns at once: it prints the line and
  "Exiting..", sends no command message for that transcript, and neither the responses that
  follow nor the ending of the response stream are looked at.
\<close>

theorem quit_closes_session:
  assumes "listen_print_loop pre None s = (None, s1)" and "\<not> closed s1"
    and "results r = res # others" and "alternatives res = alt # alts"
    and "accept res" and "re_search_words quit_words (transcript alt)"
  shows "listen_print_loop (pre @ (t, r) # post) fate s =
           (None, (emit [Print (shown_line (transcript alt) res s1), Print ''Exiting..''] s1)
                    \<lparr>closed := True\<rparr>)"
proof -
  let ?wf = "\<lambda>(now, r). well_formed r"
  have wf: "well_formed r" using assms(3,4) by (simp add: well_formed_def)
  have step: "process_response t r s1 =
      (Break, (emit [Print (shown_line (transcript alt) res s1), Print ''Exiting..''] s1)
                \<lparr>closed := True\<rparr>)"
    using assms(3-6) by (simp add: process_response_top process_result_quit)
  have "for_responses (filter ?wf (pre @ (t, r) # post)) fate (s\<lparr>num_chars_printed := 0\<rparr>) =
      for_responses ((t, r) # filter ?wf post) fate s1"
    using for_responses_append_open [OF listen_print_loop_None [OF assms(1)] assms(2)] wf
    by simp
  also have "\<dots> = (None, (emit [Print (shown_line (transcript alt) res s1), Print ''Exiting..''] s1)
                    \<lparr>closed := True\<rparr>)"
    by (simp add: step)
  finally show ?thesis by (simp add: listen_print_loop_def)
qed

theorem quit_closes_session_witness:
  "listen_print_loop [(1, response_of ''halt'' 0 True), (2, response_of ''please exit now'' 0 True),
       (3, response_of ''go fast'' 0 True)] (Some (Exception ''reset''))
     (initial\<lparr>closed := False\<rparr>) =
   (None, (emit [Print ''halt Final'', Print ''   Command:  halt'',
                 Print_json ''   Sending: '' (voice_msg 10), Send (voice_msg 10),
                 Print ''please exit now Final'', Print ''Exiting..'']
             (initial\<lparr>closed := False\<rparr>))
          \<lparr>last_command_ts := 1, last_command_num := 10, closed := True\<rparr>)"
proof -
  have a: "accept (result_of ''please exit now'' 0 True)"
    by (simp add: accept_def result_of_def)
  have r: "results (response_of ''please exit now'' 0 True) =
      result_of ''please exit now'' 0 True # []"
    "alternatives (result_of ''please exit now'' 0 True) = \<lparr>transcript = ''please exit now''\<rparr> # []"
    by (simp_all add: response_of_def result_of_def)
  have q: "re_search_words quit_words (transcript \<lparr>transcript = ''please exit now''\<rparr>)"
    using quit_please_exit by simp
  have o: "\<not> closed ((emit [Print ''halt Final'', Print ''   Command:  halt'',
                   Print_json ''   Sending: '' (voice_msg 10), Send (voice_msg 10)]
               (initial\<lparr>closed := False\<rparr>))\<lparr>last_command_ts := 1, last_command_num := 10\<rparr>)"
    by (simp add: emit_def)
  from quit_closes_session [OF listen_halt o r a q, of 2 "[(3, response_of ''go fast'' 0 True)]"
      "Some (Exception ''reset'')"]
  show ?thesis
    by (simp add: emit_def initial_def shown_line_def display_text_def stability_str_def
        final_str_def result_of_def)
qed

section \<open>Suppressed repeats leave the state alone\<close>

text \<open>
  Claim C9. Let the last sent index be \<open>i < 6\<close>, sent at \<open>last_command_ts\<close>. However many accepted
  results with the same index arrive less than 2 seconds after that time, each is suppressed and
  none of them changes \<open>last_command_num\<close> or \<open>last_command_ts\<close>: the stored time stays the
  time of the last message sent. So the first such result that arrives 2 seconds or more after
  the last message is sent again, and only then the stored time moves.
\<close>

theorem suppressed_keeps_state:
  assumes "\<forall>(t, r)\<in>set attempts. utters i r \<and> t - last_command_ts s < 2"
    and "last_command_num s = i" and "0 \<le> i" and "i < 6"
    and "utters i r'" and "2 \<le> t' - last_command_ts s"
  shows "fst (listen_print_loop attempts None s) = None \<and>
         sends (out (snd (listen_print_loop attempts None s))) = sends (out s) \<and>
         last_command_ts (snd (listen_print_loop attempts None s)) = last_command_ts s \<and>
         last_command_num (snd (listen_print_loop attempts None s)) = last_command_num s \<and>
         fst (listen_print_loop (attempts @ [(t', r')]) None s) = None \<and>
         sends (out (snd (listen_print_loop (attempts @ [(t', r')]) None s))) =
           sends (out s) @ [voice_msg i] \<and>
         last_command_ts (snd (listen_print_loop (attempts @ [(t', r')]) None s)) = t' \<and>
         last_command_num (snd (listen_print_loop (attempts @ [(t', r')]) None s)) = i"
proof -
  let ?wf = "\<lambda>(now, r). well_formed r"
  let ?s0 = "s\<lparr>num_chars_printed := 0\<rparr>"
  have f1: "filter ?wf attempts = attempts"
    using assms(1) by (auto simp: filter_id_conv utters_well_formed)
  have f2: "filter ?wf (attempts @ [(t', r')]) = attempts @ [(t', r')]"
    using f1 assms(5) by (simp add: utters_well_formed)
  have pre: "\<forall>(t, r)\<in>set attempts. utters i r \<and> t - last_command_ts ?s0 < 2"
    using assms(1) by simp
  have num: "last_command_num ?s0 = i" using assms(2) by simp
  from suppressed_run [OF pre num assms(3,4), of "[]" None] obtain s1 where
    a: "for_responses attempts None ?s0 = (None, s1)" "sends (out s1) = sends (out s)"
      "last_command_ts s1 = last_command_ts s" "last_command_num s1 = i"
    by auto
  from suppressed_run [OF pre num assms(3,4), of "[(t', r')]" None] obtain s2 where
    b: "for_responses (attempts @ [(t', r')]) None ?s0 = for_responses [(t', r')] None s2"
      "sends (out s2) = sends (out s)" "last_command_ts s2 = last_command_ts s"
      "last_command_num s2 = i"
    by auto
  from assms(6) b(3) have "\<not> (last_command_num s2 = i \<and> i < 6 \<and> t' - last_command_ts s2 < 2)"
    by simp
  from utters_sent [OF assms(5,3) this] obtain s3 where
    c: "process_response t' r' s2 = (Continue, s3)"
      "sends (out s3) = sends (out s2) @ [voice_msg i]"
      "last_command_ts s3 = t'" "last_command_num s3 = i"
    by blast
  have l1: "listen_print_loop attempts None s = (None, s1)"
    by (simp add: listen_print_loop_def f1 a(1))
  have l2: "listen_print_loop (attempts @ [(t', r')]) None s = (None, s3)"
    by (simp only: listen_print_loop_def f2 b(1)) (simp add: c(1))
  from a b c assms(2) show ?thesis by (simp add: l1 l2)
qed

theorem suppressed_keeps_state_witness:
  "sends (out (snd (listen_print_loop
      [(10.5, response_of ''go slow'' 0 True), (11, response_of ''go slow'' 0 True),
       (11.9, response_of ''go slow'' 0 True)] None
      (initial\<lparr>last_command_ts := 10, last_command_num := 3\<rparr>)))) = [] \<and>
   last_command_ts (snd (listen_print_loop
      [(10.5, response_of ''go slow'' 0 True), (11, response_of ''go slow'' 0 True),
       (11.9, response_of ''go slow'' 0 True)] None
      (initial\<lparr>last_command_ts := 10, last_command_num := 3\<rparr>))) = 10 \<and>
   sends (out (snd (listen_print_loop
      ([(10.5, response_of ''go slow'' 0 True), (11, response_of ''go slow'' 0 True),
        (11.9, response_of ''go slow'' 0 True)] @ [(12, response_of ''go slow'' 0 True)]) None
      (initial\<lparr>last_command_ts := 10, last_command_num := 3\<rparr>)))) = [voice_msg 3] \<and>
   last_command_ts (snd (listen_print_loop
      ([(10.5, response_of ''go slow'' 0 True), (11, response_of ''go slow'' 0 True),
        (11.9, response_of ''go slow'' 0 True)] @ [(12, response_of ''go slow'' 0 True)]) None
      (initial\<lparr>last_command_ts := 10, last_command_num := 3\<rparr>))) = 12"
proof -
  let ?s = "initial\<lparr>last_command_ts := 10, last_command_num := 3\<rparr>"
  have 1: "\<forall>(t, r)\<in>set [(10.5 :: real, response_of ''go slow'' 0 True),
      (11, response_of ''go slow'' 0 True), (11.9, response_of ''go slow'' 0 True)].
        utters 3 r \<and> t - last_command_ts ?s < 2"
    by (simp add: utters_go_slow)
  have 2: "last_command_num ?s = 3" "(0 :: int) \<le> 3" "(3 :: int) < 6" by simp_all
  have 3: "2 \<le> 12 - last_command_ts ?s" by simp
  from suppressed_keeps_state [OF 1 2 utters_go_slow 3, of 0]
  show ?thesis by (simp add: initial_def)
qed

section \<open>The supervising loop after a quit word\<close>

lemma quit_quit: "re_search_words quit_words ''quit''"
  by code_simp

lemma listen_quit:
  "listen_print_loop [(t, response_of ''quit'' 0 True)] fate s =
     (None, (emit [Print ''quit Final'', Print ''Exiting..''] s)
              \<lparr>num_chars_printed := 0, closed := True\<rparr>)"
proof -
  have a: "accept (result_of ''quit'' 0 True)" by (simp add: accept_def result_of_def)
  have "process_result t ''quit'' (result_of ''quit'' 0 True) (s\<lparr>num_chars_printed := 0\<rparr>) =
      (Break, (emit [Print ''quit Final'', Print ''Exiting..''] s)
              \<lparr>num_chars_printed := 0, closed := True\<rparr>)"
    using process_result_quit [OF a quit_quit, of t "s\<lparr>num_chars_printed := 0\<rparr>"]
    by (simp add: emit_def shown_line_def display_text_def
        stability_str_def final_str_def result_of_def)
  then show ?thesis
    by (simp add: listen_print_loop_def well_formed_def response_of_def process_response_def
        result_of_def)
qed

lemma listen_go_fast:
  assumes "last_command_num s \<noteq> 4"
  shows "listen_print_loop [(t, response_of ''go fast'' 0 True)] None s =
     (None, (emit [Print ''go fast Final'', Print ''   Command:  go fast'',
                   Print_json ''   Sending: '' (voice_msg 4), Send (voice_msg 4)] s)
              \<lparr>last_command_ts := t, last_command_num := 4, num_chars_printed := 0\<rparr>)"
proof -
  have a: "accept (result_of ''go fast'' 0 True)" by (simp add: accept_def result_of_def)
  have i: "0 \<le> fst (scan_commands ''go fast'')" by (simp add: scan_go_fast)
  have "process_result t ''go fast'' (result_of ''go fast'' 0 True) (s\<lparr>num_chars_printed := 0\<rparr>) =
     (Continue, (emit [Print ''go fast Final'', Print ''   Command:  go fast'',
                   Print_json ''   Sending: '' (voice_msg 4), Send (voice_msg 4)] s)
              \<lparr>last_command_ts := t, last_command_num := 4, num_chars_printed := 0\<rparr>)"
    using process_result_command [OF a no_quit_go_fast i, of t "s\<lparr>num_chars_printed := 0\<rparr>"] assms
    by (simp add: Let_def scan_go_fast emit_def shown_line_def display_text_def
        stability_str_def final_str_def result_of_def)
  then show ?thesis
    by (simp add: listen_print_loop_def well_formed_def response_of_def process_response_def
        result_of_def)
qed

text \<open>
  Claim C2 says that after the user's "quit" or "exit" the supervising loop terminates and no
  new session is started. The program prints \<^verbatim>\<open>Say "Quit" or "Exit" to terminate the program.\<close>,
  and the transcript loop does close the stream, which is then released; but the enclosing
  \<^verbatim>\<open>while (True)\<close> of \<open>main\<close> has no exit, so its next pass constructs a new stream and
  starts a new session. On a first session that hears "quit" and a second that hears "go fast",
  the program releases the microphone, acquires it again, prints "starting stream" a second
  time and sends the command of the second session.
\<close>

theorem quit_then_new_session:
  "out (main [\<lparr>opened_at = 0, audio = [], responses = [(1, response_of ''quit'' 0 True)],
                ending = None\<rparr>,
              \<lparr>opened_at = 2000, audio = [], responses = [(3, response_of ''go fast'' 0 True)],
                ending = None\<rparr>]) =
     [Acquire, Print ''starting stream'', Print ''quit Final'', Print ''Exiting..'', Release,
      Acquire, Print ''starting stream'', Print ''go fast Final'', Print ''   Command:  go fast'',
      Print_json ''   Sending: '' (voice_msg 4), Send (voice_msg 4)]"
  by (simp add: main_def run_session_def open_session_def listen_quit listen_go_fast enter_mic_def
      exit_mic_def emit_def initial_def)

section \<open>Hand-over between sessions\<close>

lemma requests_append: "requests (xs @ ys) = requests xs @ requests ys"
  by (induction xs rule: requests.induct) simp_all

lemma queued_append: "queued (xs @ ys) = queued xs @ queued ys"
  by (induction xs rule: queued.induct) simp_all

lemma puts_append: "puts (xs @ ys) = puts xs @ puts ys"
  by (induction xs rule: puts.induct) simp_all

lemma drain_all:
  "None \<notin> set q \<Longrightarrow> drain data q = (Some (concat (data @ queued q)), [])"
proof (induction q arbitrary: data)
  case Nil
  then show ?case by simp
next
  case (Cons a q)
  then obtain chunk where "a = Some chunk" by (cases a) auto
  with Cons show ?case by simp
qed

lemma next_chunks_whole:
  assumes "None \<notin> set (buff s)"
  shows "next_chunks s =
     (if buff s = [] then s\<lparr>gen := Waiting\<rparr>
      else (emit [Request (concat (queued (buff s)))] s)\<lparr>buff := [], gen := Ready\<rparr>)"
proof (cases "buff s")
  case Nil
  then show ?thesis by (simp add: next_chunks_def)
next
  case (Cons a q)
  with assms obtain chunk where a: "a = Some chunk" and q: "None \<notin> set q"
    by (cases a) auto
  from drain_all [OF q, of "[chunk]"] Cons a show ?thesis
    by (simp add: next_chunks_def)
qed

lemma audio_step_conserved:
  assumes "None \<notin> set (buff s)"
  shows "None \<notin> set (buff (audio_step s e)) \<and>
         conserved (audio_step s e) = conserved s @ concat (puts [e]) \<and>
         closed (audio_step s e) = closed s"
proof (cases e)
  case (Put chunk)
  with assms show ?thesis
    by (simp add: conserved_def queued_append)
next
  case (Pull now)
  have "None \<notin> set (buff (next_chunks s)) \<and> conserved (next_chunks s) = conserved s \<and>
      closed (next_chunks s) = closed s"
    using assms
    by (simp add: next_chunks_whole conserved_def emit_def requests_append)
  with Pull assms show ?thesis
    by (simp add: generator_next_def conserved_def split: gen_state.splits)
qed

lemma audio_conserved:
  assumes "None \<notin> set (buff s)"
  shows "None \<notin> set (buff (foldl audio_step s es)) \<and>
         conserved (foldl audio_step s es) = conserved s @ concat (puts es) \<and>
         closed (foldl audio_step s es) = closed s"
  using assms
proof (induction es arbitrary: s)
  case Nil
  then show ?case by simp
next
  case (Cons e es)
  from audio_step_conserved [OF Cons.prems, of e]
  have 1: "None \<notin> set (buff (audio_step s e))"
    and 2: "conserved (audio_step s e) = conserved s @ concat (puts [e])"
    and 3: "closed (audio_step s e) = closed s" by simp_all
  have "puts (e # es) = puts [e] @ puts es" using puts_append [of "[e]" es] by simp
  with Cons.IH [OF 1] 2 3 show ?case by simp
qed

lemma requests_prints: "requests (map (\<lambda>i. Print (f i)) xs) = []"
  by (induction xs) simp_all

lemma requests_scan: "requests (snd (scan_commands text)) = []"
  by (simp add: scan_commands_eq requests_prints)

lemma stream_untouched_refl: "stream_untouched s s"
  by (simp add: stream_untouched_def)

lemma stream_untouched_trans:
  "stream_untouched s s' \<Longrightarrow> stream_untouched s' s'' \<Longrightarrow> stream_untouched s s''"
  by (simp add: stream_untouched_def)

lemma process_response_quiet:
  assumes "\<not> closes r"
  shows "\<exists>s'. process_response t r s = (Continue, s') \<and> stream_untouched s s'"
proof (cases "well_formed r")
  case False
  then show ?thesis by (simp add: process_response_malformed stream_untouched_refl)
next
  case True
  then obtain res others alt alts where r: "results r = res # others"
      "alternatives res = alt # alts"
    by (auto simp: well_formed_def neq_Nil_conv)
  then have eq: "process_response t r s = process_result t (transcript alt) res s"
    by (simp add: process_response_top)
  show ?thesis
  proof (cases "accept res")
    case False
    from process_result_interim [OF this, of t "transcript alt" s] show ?thesis
      by (simp add: eq stream_untouched_def emit_def requests_append)
  next
    case True
    note acc = this
    with assms r have nq: "\<not> re_search_words quit_words (transcript alt)"
      by (simp add: closes_def)
    show ?thesis
    proof (cases "0 \<le> fst (scan_commands (transcript alt))")
      case True
      from process_result_command [OF acc nq True, of t s] show ?thesis
        by (simp add: eq Let_def stream_untouched_def emit_def requests_append requests_scan)
    next
      case False
      with scan_commands_range [of "transcript alt"]
      have "fst (scan_commands (transcript alt)) = - 1" by simp
      from process_result_no_command [OF acc nq this, of t s] show ?thesis
        by (simp add: eq stream_untouched_def emit_def requests_append requests_scan)
    qed
  qed
qed

lemma for_responses_quiet:
  assumes "\<forall>(t, r)\<in>set rs. \<not> closes r"
  shows "\<exists>s'. for_responses rs None s = (None, s') \<and> stream_untouched s s'"
  using assms
proof (induction rs arbitrary: s)
  case Nil
  then show ?case by (simp add: stream_untouched_refl)
next
  case (Cons x rs)
  obtain t r where x: "x = (t, r)" by (cases x)
  with Cons.prems have "\<not> closes r" by simp
  from process_response_quiet [OF this, of t s] obtain s1 where
    step: "process_response t r s = (Continue, s1)" and u1: "stream_untouched s s1" by blast
  from Cons.prems have "\<forall>(t, r)\<in>set rs. \<not> closes r" by simp
  from Cons.IH [OF this, of s1] obtain s' where
    run: "for_responses rs None s1 = (None, s')" and u2: "stream_untouched s1 s'" by blast
  from step run x have "for_responses (x # rs) None s = (None, s')" by simp
  with stream_untouched_trans [OF u1 u2] show ?case by blast
qed

lemma listen_print_loop_quiet:
  assumes "\<forall>(t, r)\<in>set rs. \<not> closes r"
  shows "\<exists>s'. listen_print_loop rs None s = (None, s') \<and> stream_untouched s s'"
proof -
  let ?rs = "filter (\<lambda>(now, r). well_formed r) rs"
  from assms have "\<forall>(t, r)\<in>set ?rs. \<not> closes r" by auto
  from for_responses_quiet [OF this, of "s\<lparr>num_chars_printed := 0\<rparr>"] obtain s' where
    run: "for_responses ?rs None (s\<lparr>num_chars_printed := 0\<rparr>) = (None, s')"
    and u: "stream_untouched (s\<lparr>num_chars_printed := 0\<rparr>) s'" by blast
  from u have "stream_untouched s s'" by (simp add: stream_untouched_def)
  with run show ?thesis by (simp add: listen_print_loop_def)
qed

lemma open_session_conserved:
  assumes "None \<notin> set (buff s)" and "closed s \<longrightarrow> buff s = []"
  shows "\<not> closed (open_session s x) \<and> None \<notin> set (buff (open_session s x)) \<and>
         conserved (open_session s x) = conserved s"
  using assms
  by (auto simp: open_session_def enter_mic_def emit_def conserved_def requests_append)

lemma run_session_quiet:
  assumes "quiet x" and "None \<notin> set (buff s)" and "closed s \<longrightarrow> buff s = []"
  shows "\<not> closed (run_session s x) \<and> None \<notin> set (buff (run_session s x)) \<and>
         conserved (run_session s x) = conserved s @ concat (puts (audio x))"
proof -
  let ?s1 = "open_session s x"
  let ?s2 = "foldl audio_step ?s1 (audio x)"
  from assms(1) have e: "ending x = None" and q: "\<forall>(t, r)\<in>set (responses x). \<not> closes r"
    by (simp_all add: quiet_def)
  from open_session_conserved [OF assms(2,3), of x]
  have o: "\<not> closed ?s1" "None \<notin> set (buff ?s1)" "conserved ?s1 = conserved s" by simp_all
  from audio_conserved [OF o(2), of "audio x"] o
  have a: "\<not> closed ?s2" "None \<notin> set (buff ?s2)"
      "conserved ?s2 = conserved s @ concat (puts (audio x))" by simp_all
  from listen_print_loop_quiet [OF q, of ?s2] obtain s3 where
    l: "listen_print_loop (responses x) None ?s2 = (None, s3)" and u: "stream_untouched ?s2 s3"
    by blast
  from u a(1) have c3: "\<not> closed s3" by (simp add: stream_untouched_def)
  then have "run_session s x = s3" by (simp add: run_session_def e l)
  moreover from u have "conserved s3 = conserved ?s2" "buff s3 = buff ?s2"
    by (simp_all add: stream_untouched_def conserved_def)
  ultimately show ?thesis using a c3 by simp
qed

lemma sessions_conserved:
  assumes "\<forall>x\<in>set script. quiet x" and "None \<notin> set (buff s)" and "closed s \<longrightarrow> buff s = []"
  shows "None \<notin> set (buff (foldl run_session s script)) \<and>
         (closed (foldl run_session s script) \<longrightarrow> buff (foldl run_session s script) = []) \<and>
         (script \<noteq> [] \<longrightarrow> \<not> closed (foldl run_session s script)) \<and>
         conserved (foldl run_session s script) =
           conserved s @ concat (map (\<lambda>x. concat (puts (audio x))) script)"
  using assms
proof (induction script arbitrary: s)
  case Nil
  then show ?case by simp
next
  case (Cons x xs)
  from Cons.prems(1) have qx: "quiet x" and qxs: "\<forall>x\<in>set xs. quiet x" by simp_all
  from run_session_quiet [OF qx Cons.prems(2,3)]
  have r: "\<not> closed (run_session s x)" "None \<notin> set (buff (run_session s x))"
    "conserved (run_session s x) = conserved s @ concat (puts (audio x))" by simp_all
  from r(1) have r': "closed (run_session s x) \<longrightarrow> buff (run_session s x) = []" by simp
  from Cons.IH [OF qxs r(2) r'] r show ?case
    by (cases xs) simp_all
qed

lemma foldl_puts:
  "foldl audio_step s (map Put cs) = s\<lparr>buff := buff s @ map Some cs\<rparr>"
  by (induction cs arbitrary: s) simp_all

lemma queued_Some: "queued (map Some cs) = cs"
  by (induction cs) simp_all

lemma run_session_quiet_state:
  assumes "quiet x" and "\<not> closed s" and "None \<notin> set (buff s)"
  shows "stream_untouched
           (foldl audio_step ((emit [Print ''starting stream''] s)\<lparr>gen := Ready\<rparr>) (audio x))
           (run_session s x)"
proof -
  let ?s1 = "(emit [Print ''starting stream''] s)\<lparr>gen := Ready\<rparr>"
  let ?s2 = "foldl audio_step ?s1 (audio x)"
  from assms(1) have e: "ending x = None" and q: "\<forall>(t, r)\<in>set (responses x). \<not> closes r"
    by (simp_all add: quiet_def)
  have o: "open_session s x = ?s1" using assms(2) by (simp add: open_session_def)
  have "None \<notin> set (buff ?s1)" using assms(3) by (simp add: emit_def)
  from audio_conserved [OF this, of "audio x"] assms(2)
  have c2: "\<not> closed ?s2" by (simp add: emit_def)
  from listen_print_loop_quiet [OF q, of ?s2] obtain s3 where
    l: "listen_print_loop (responses x) None ?s2 = (None, s3)" and u: "stream_untouched ?s2 s3"
    by blast
  from u c2 have "\<not> closed s3" by (simp add: stream_untouched_def)
  then have "run_session s x = s3" by (simp add: run_session_def o e l)
  with u show ?thesis by simp
qed

lemma requests_next_chunks:
  assumes "None \<notin> set (buff s)"
  shows "requests (out (next_chunks s)) =
     requests (out s) @ (if buff s = [] then [] else [concat (queued (buff s))])"
  by (simp add: next_chunks_whole [OF assms] emit_def requests_append)

lemma handoff:
  assumes "\<not> closed s" and "None \<notin> set (buff s)"
    and "STREAMING_LIMIT < now - start_time s"
    and "audio x = Pull now # map Put cs" and "quiet x"
    and "audio y = [Pull now']" and "now' - now \<le> STREAMING_LIMIT" and "quiet y"
  shows "requests (out (run_session s x)) = requests (out s) \<and>
         start_time (run_session s x) = now \<and>
         buff (run_session s x) = buff s @ map Some cs \<and>
         requests (out (run_session (run_session s x) y)) =
           requests (out s) @
           (if buff s = [] \<and> cs = [] then [] else [concat (queued (buff s) @ cs)])"
proof -
  let ?sx = "run_session s x"
  let ?s1 = "(emit [Print ''starting stream''] s)\<lparr>gen := Ready\<rparr>"
  have "foldl audio_step ?s1 (audio x) =
      ?s1\<lparr>start_time := now, gen := Ended, buff := buff s @ map Some cs\<rparr>"
    using assms(1,3,4) by (simp add: generator_next_def foldl_puts emit_def)
  with run_session_quiet_state [OF assms(5,1,2)]
  have x: "requests (out ?sx) = requests (out s)" "start_time ?sx = now"
      "buff ?sx = buff s @ map Some cs" "\<not> closed ?sx"
    using assms(1) by (simp_all add: stream_untouched_def emit_def requests_append)
  let ?t1 = "(emit [Print ''starting stream''] ?sx)\<lparr>gen := Ready\<rparr>"
  have n: "None \<notin> set (buff ?sx)" using x(3) assms(2) by auto
  then have n1: "None \<notin> set (buff ?t1)" by (simp add: emit_def)
  have "foldl audio_step ?t1 (audio y) = next_chunks ?t1"
    using assms(6,7) x(2,4) by (simp add: generator_next_def emit_def)
  with run_session_quiet_state [OF assms(8) x(4) n]
  have "requests (out (run_session ?sx y)) = requests (out (next_chunks ?t1))"
    by (simp add: stream_untouched_def)
  also have "\<dots> = requests (out ?t1) @ (if buff ?t1 = [] then [] else [concat (queued (buff ?t1))])"
    using n1 by (rule requests_next_chunks)
  also have "\<dots> = requests (out s) @
      (if buff s = [] \<and> cs = [] then [] else [concat (queued (buff s) @ cs)])"
    using x(1,3)
    by (simp add: emit_def requests_append queued_append queued_Some)
  finally show ?thesis using x by simp
qed

lemma quiet_sessions: "quiet session_a" "quiet session_b" "quiet session_x" "quiet session_y"
  by (simp_all add: quiet_def session_a_def session_b_def session_x_def session_y_def closes_def
      response_of_def result_of_def no_quit_halt no_quit_go_slow)

text \<open>
  Claim C7. The generator checks the elapsed time at the head of its loop, before it takes
  anything from the queue: once more than \<open>STREAMING_LIMIT = 55000\<close> ms have passed since
  \<open>start_time\<close> it ends and sets \<open>start_time\<close> to the current time, with the queue untouched
  and nothing requested. When the transcript loop of that session then returns without a
  close, the next session starts on the same stream, and its first request carries what was
  queued followed by the chunks put during the hand-over, in the order they were put. Over
  any number of such sessions, the bytes requested followed by the bytes still queued are
  exactly the bytes put, in order: nothing is sent twice and nothing is dropped.
\<close>

theorem session_handoff:
  assumes "gen s = Ready" and "\<not> closed s" and "None \<notin> set (buff s)"
    and "STREAMING_LIMIT < now - start_time s"
    and "audio x = Pull now # map Put cs" and "quiet x"
    and "audio y = [Pull now']" and "now' - now \<le> STREAMING_LIMIT" and "quiet y"
    and "\<forall>z\<in>set script. quiet z"
  shows "generator_next now s = s\<lparr>start_time := now, gen := Ended\<rparr> \<and>
         requests (out (run_session s x)) = requests (out s) \<and>
         start_time (run_session s x) = now \<and>
         buff (run_session s x) = buff s @ map Some cs \<and>
         requests (out (run_session (run_session s x) y)) =
           requests (out s) @
           (if buff s = [] \<and> cs = [] then [] else [concat (queued (buff s) @ cs)]) \<and>
         concat (requests (out (main script))) @ concat (queued (buff (main script))) =
           concat (map (\<lambda>z. concat (puts (audio z))) script) \<and>
         (script \<noteq> [] \<longrightarrow> \<not> closed (main script))"
proof -
  have 1: "generator_next now s = s\<lparr>start_time := now, gen := Ended\<rparr>"
    using assms(1,2,4) by (simp add: generator_next_def)
  have i: "None \<notin> set (buff initial)" "closed initial \<longrightarrow> buff initial = []"
    by (simp_all add: initial_def)
  have c: "conserved initial = []" by (simp add: conserved_def initial_def)
  from sessions_conserved [OF assms(10) i] c
  have 3: "concat (requests (out (main script))) @ concat (queued (buff (main script))) =
           concat (map (\<lambda>z. concat (puts (audio z))) script)"
    and 4: "script \<noteq> [] \<longrightarrow> \<not> closed (main script)"
    by (simp_all add: main_def conserved_def)
  from 1 handoff [OF assms(2,3,4,5,6,7,8,9)] 3 4 show ?thesis by simp
qed

theorem session_handoff_witness:
  "generator_next 55001 open_state = open_state\<lparr>start_time := 55001, gen := Ended\<rparr> \<and>
   requests (out (run_session open_state session_x)) = [] \<and>
   buff (run_session open_state session_x) = [Some ''a'', Some ''b'', Some ''c''] \<and>
   requests (out (run_session (run_session open_state session_x) session_y)) = [''abc''] \<and>
   concat (requests (out (main [session_a, session_b]))) @
     concat (queued (buff (main [session_a, session_b]))) = ''abcde''"
proof -
  have h: "gen open_state = Ready" "\<not> closed open_state" "None \<notin> set (buff open_state)"
    "STREAMING_LIMIT < 55001 - start_time open_state"
    "audio session_x = Pull 55001 # map Put [''b'', ''c'']"
    "audio session_y = [Pull 55100]" "(55100 :: int) - 55001 \<le> STREAMING_LIMIT"
    by (simp_all add: open_state_def initial_def STREAMING_LIMIT_def session_x_def session_y_def)
  have q: "\<forall>z\<in>set [session_a, session_b]. quiet z" by (simp add: quiet_sessions)
  from session_handoff [OF h(1,2,3,4,5) quiet_sessions(3) h(6,7) quiet_sessions(4) q]
  show ?thesis
    by (simp add: open_state_def initial_def session_a_def session_b_def)
qed

end
